theory Spec2Isabelle
  imports Complex_Main "HOL-Library.List_Lexorder" "HOL-Library.Char_ord"
begin

section \<open>Strings\<close>

text \<open>
  Python strings are modelled as \<open>string\<close> (lists of characters); text outside ASCII is
  its UTF-8 byte sequence. String comparison (\<open><=\<close> on \<open>str\<close>) is the lexicographic
  order of \<open>HOL-Library.List_Lexorder\<close> over the character order of
  \<open>HOL-Library.Char_ord\<close>. Library functions whose behaviour no property below depends
  on (\<open>str.lower\<close>, \<open>re.findall\<close>, \<open>datetime.strptime\<close>, float division and
  \<open>round\<close>) are parameters of the functions that call them, named after the call.
\<close>

text \<open>\<open>s.startswith(p)\<close>\<close>

fun startswith :: "'a list \<Rightarrow> 'a list \<Rightarrow> bool" where
  "startswith s [] = True"
| "startswith [] (p # ps) = False"
| "startswith (c # cs) (p # ps) = (c = p \<and> startswith cs ps)"

text \<open>\<open>needle in haystack\<close> for strings: some suffix of the haystack starts with the needle.\<close>

fun str_in :: "'a list \<Rightarrow> 'a list \<Rightarrow> bool" where
  "str_in needle [] = (needle = [])"
| "str_in needle (c # cs) = (startswith (c # cs) needle \<or> str_in needle cs)"

text \<open>
  The characters \<open>str.split()\<close> treats as separators, in the ASCII range: tab, line feed,
  vertical tab, form feed, carriage return, the four separators 28 to 31, and space.
\<close>

definition isspace :: "char \<Rightarrow> bool" where
  "isspace c = (of_char c \<in> {9, 10, 11, 12, 13, 28, 29, 30, 31, 32 :: nat})"

text \<open>
  \<open>s.split()[0]\<close>: the first maximal run of non-space characters; \<open>None\<close> stands for the
  \<open>IndexError\<close> raised when \<open>s.split()\<close> is empty (a blank string).
\<close>

definition split_first :: "string \<Rightarrow> string option" where
  "split_first s =
     (case dropWhile isspace s of
        [] \<Rightarrow> None
      | c # cs \<Rightarrow> Some (takeWhile (\<lambda>x. \<not> isspace x) (c # cs)))"

section \<open>Identity matcher: \<open>bot/services/image_ocr.py\<close>\<close>

subsection \<open>The edit-distance matrix of \<open>_calculate_similarity\<close>\<close>

text \<open>\<open>matrix[i][j] = v\<close> on a list of rows.\<close>

definition set_cell :: "nat list list \<Rightarrow> nat \<Rightarrow> nat \<Rightarrow> nat \<Rightarrow> nat list list" where
  "set_cell matrix i j v = matrix[i := (matrix ! i)[j := v]]"

text \<open>\<open>[[0] * (len(str2) + 1) for _ in range(len(str1) + 1)]\<close>\<close>

definition zero_matrix :: "'a list \<Rightarrow> 'a list \<Rightarrow> nat list list" where
  "zero_matrix str1 str2 = replicate (length str1 + 1) (replicate (length str2 + 1) 0)"

text \<open>The two border loops: \<open>matrix[i][0] = i\<close> and \<open>matrix[0][j] = j\<close>.\<close>

definition init_borders :: "'a list \<Rightarrow> 'a list \<Rightarrow> nat list list" where
  "init_borders str1 str2 =
     fold (\<lambda>j matrix. set_cell matrix 0 j j) [0..<length str2 + 1]
       (fold (\<lambda>i matrix. set_cell matrix i 0 i) [0..<length str1 + 1]
          (zero_matrix str1 str2))"

text \<open>The body of the inner loop, for one cell \<open>(i, j)\<close> with \<open>1 \<le> i\<close> and \<open>1 \<le> j\<close>.\<close>

definition fill_cell :: "'a list \<Rightarrow> 'a list \<Rightarrow> nat \<Rightarrow> nat \<Rightarrow> nat list list \<Rightarrow> nat list list" where
  "fill_cell str1 str2 i j matrix =
     (let cost = (if str1 ! (i - 1) = str2 ! (j - 1) then 0 else 1)
      in set_cell matrix i j
           (min (min (matrix ! (i - 1) ! j + 1) (matrix ! i ! (j - 1) + 1))
                (matrix ! (i - 1) ! (j - 1) + cost)))"

text \<open>\<open>for j in range(1, len(str2) + 1)\<close> for a fixed row \<open>i\<close>.\<close>

definition fill_row :: "'a list \<Rightarrow> 'a list \<Rightarrow> nat \<Rightarrow> nat list list \<Rightarrow> nat list list" where
  "fill_row str1 str2 i matrix = fold (fill_cell str1 str2 i) [1..<length str2 + 1] matrix"

text \<open>\<open>for i in range(1, len(str1) + 1)\<close> around it, started on the initialised matrix.\<close>

definition levenshtein_matrix :: "'a list \<Rightarrow> 'a list \<Rightarrow> nat list list" where
  "levenshtein_matrix str1 str2 =
     fold (fill_row str1 str2) [1..<length str1 + 1] (init_borders str1 str2)"

text \<open>
  The recurrence the matrix is meant to tabulate: the classic edit distance between the
  first \<open>i\<close> characters of \<open>s\<close> and the first \<open>j\<close> characters of \<open>t\<close>, with insertion,
  deletion and substitution at cost 1 each. It is used to reason about the loops above.
\<close>

fun edit_distance :: "'a list \<Rightarrow> 'a list \<Rightarrow> nat \<Rightarrow> nat \<Rightarrow> nat" where
  "edit_distance s t 0 j = j"
| "edit_distance s t (Suc i) 0 = Suc i"
| "edit_distance s t (Suc i) (Suc j) =
     min (min (edit_distance s t i (Suc j) + 1) (edit_distance s t (Suc i) j + 1))
         (edit_distance s t i j + (if s ! i = t ! j then 0 else 1))"

subsection \<open>\<open>ImageProcessor._calculate_similarity\<close>\<close>

text \<open>
  Confidence values are Python floats; they are modelled as rationals, so \<open>0.9\<close> is
  \<open>9 / 10\<close> and the division is exact.
\<close>

definition calculate_similarity :: "'a list \<Rightarrow> 'a list \<Rightarrow> rat" where
  "calculate_similarity str1 str2 =
     (if str1 = str2 then 1
      else
        let longer = (if length str1 > length str2 then str1 else str2);
            shorter = (if length str1 \<le> length str2 then str1 else str2)
        in if str_in shorter longer then 9 / 10
           else
             let distance = levenshtein_matrix str1 str2 ! length str1 ! length str2;
                 max_len = max (length str1) (length str2)
             in if max_len = 0 then 1
                else 1 - (of_nat distance / of_nat max_len))"

subsection \<open>\<open>ImageProcessor.find_usernames\<close>\<close>

text \<open>
  The inner loop over \<open>members_list\<close> for one extracted token, appending to \<open>found\<close>.
\<close>

fun match_members :: "(string \<Rightarrow> string) \<Rightarrow> string \<Rightarrow> rat \<Rightarrow> string list \<Rightarrow>
    (string \<times> rat) list \<Rightarrow> (string \<times> rat) list" where
  "match_members lower username min_confidence [] found = found"
| "match_members lower username min_confidence (member # members) found =
     (let confidence = calculate_similarity (lower username) (lower member)
      in match_members lower username min_confidence members
           (if confidence \<ge> min_confidence then found @ [(member, confidence)] else found))"

text \<open>The outer loop over the regex matches.\<close>

fun match_tokens :: "(string \<Rightarrow> string) \<Rightarrow> rat \<Rightarrow> string list \<Rightarrow> string list \<Rightarrow>
    (string \<times> rat) list \<Rightarrow> (string \<times> rat) list" where
  "match_tokens lower min_confidence members_list [] found = found"
| "match_tokens lower min_confidence members_list (username # matches) found =
     match_tokens lower min_confidence members_list matches
       (match_members lower username min_confidence members_list found)"

text \<open>
  The dictionary \<open>unique_found\<close> keeps insertion order, which the final stable sort
  exposes, so it is an association list: a new key goes to the end, an existing key keeps
  its place.
\<close>

fun dict_set :: "('k \<times> 'v) list \<Rightarrow> 'k \<Rightarrow> 'v \<Rightarrow> ('k \<times> 'v) list" where
  "dict_set [] k v = [(k, v)]"
| "dict_set ((k', v') # d) k v = (if k' = k then (k, v) # d else (k', v') # dict_set d k v)"

fun unique_loop :: "(string \<times> rat) list \<Rightarrow> (string \<times> rat) list \<Rightarrow> (string \<times> rat) list" where
  "unique_loop [] unique_found = unique_found"
| "unique_loop ((username, confidence) # found) unique_found =
     unique_loop found
       (case map_of unique_found username of
          None \<Rightarrow> dict_set unique_found username confidence
        | Some old \<Rightarrow>
            if confidence > old then dict_set unique_found username confidence
            else unique_found)"

text \<open>
  \<open>sorted(items, key=..., reverse=True)\<close> is a stable sort into descending key order:
  elements with equal keys keep their relative order. A stable sort's result is determined
  by the keys and the input order, so the insertion sort \<open>sort_key\<close> on the negated key
  yields the same list.
\<close>

definition sorted_reverse :: "('a \<Rightarrow> 'b::{linorder, uminus}) \<Rightarrow> 'a list \<Rightarrow> 'a list" where
  "sorted_reverse key xs = sort_key (\<lambda>x. - key x) xs"

text \<open>
  \<open>findall\<close> stands for \<open>re.findall(all_patterns, text, re.IGNORECASE)\<close> followed by the
  \<open>''.join(match)\<close> of each tuple of groups: the list of extracted tokens, in order.
\<close>

definition find_usernames :: "(string \<Rightarrow> string list) \<Rightarrow> (string \<Rightarrow> string) \<Rightarrow>
    string \<Rightarrow> string list \<Rightarrow> rat \<Rightarrow> (string \<times> rat) list" where
  "find_usernames findall lower text members_list min_confidence =
     (let matches = findall text;
          found = match_tokens lower min_confidence members_list matches [];
          unique_found = unique_loop found []
      in sorted_reverse snd unique_found)"

text \<open>The default of the parameter \<open>min_confidence\<close>.\<close>

definition default_min_confidence :: rat where
  "default_min_confidence = 8 / 10"

section \<open>The spreadsheet: \<open>bot/database/gsheets.py\<close>\<close>

text \<open>
  The exceptions the modelled code can raise: \<open>IndexError\<close> from \<open>s.split()[0]\<close> on a
  blank string and from \<open>existing_data[0]\<close> on an empty sheet, \<open>KeyError\<close> from
  \<open>post_data['id']\<close> and its siblings, \<open>ValueError\<close> from \<open>datetime.strptime\<close>.
\<close>

datatype error = IndexError | KeyError | ValueError

text \<open>
  One record type per worksheet row, as \<open>get_all_records\<close> returns it, with the columns
  of \<open>_init_worksheet_structure\<close>. The sheet 'Uchastniki' (members) has the columns
  Username, join date, status and Telegram ID.
\<close>

record member_row =
  m_username :: string
  m_join_date :: string
  m_status :: string
  m_telegram_id :: string

text \<open>The sheet 'Posty' (posts): number, name, date, type, status, comment.\<close>

record post_row =
  p_number :: string
  p_name :: string
  p_date :: string
  p_type :: string
  p_status :: string
  p_comment :: string

text \<open>
  The sheet 'Aktivnost' (activity), which is the ledger: post ID, Username, like, comment,
  matsuni and the check time ('Vremya proverki'), a timestamp \<open>%Y-%m-%d %H:%M:%S\<close>.
\<close>

record activity_row =
  row_post_id :: string
  row_username :: string
  row_like :: string
  row_comment :: string
  row_matsuni :: int
  row_check_time :: string

text \<open>
  The sheet 'Isklyucheniya' (exclusions): Username, post name, reason, date and the flag
  'Aktivno' (active).
\<close>

record exclusion_row =
  ex_username :: string
  ex_post_name :: string
  ex_reason :: string
  ex_date :: string
  ex_active :: string

text \<open>
  The sheet 'Itogi' (totals) is read with \<open>get_all_values\<close> and rewritten as a whole, so
  it is a list of rows of cells. A cell holds what was written to it: text, an integer or
  a float (a rational here). The code only compares the first cell of a row with the
  period id, a text containing an underscore, which no number renders as.
\<close>

datatype cell = CStr string | CInt int | CFlt rat

record db =
  ws_members :: "member_row list"
  ws_posts :: "post_row list"
  ws_activity :: "activity_row list"
  ws_exclusions :: "exclusion_row list"
  ws_totals :: "cell list list"

text \<open>
  The words the code writes and tests, as UTF-8: 'da' (yes), 'net' (no), 'obychnyi'
  (ordinary, the default post type) and 'obrabotan' (processed).
\<close>

definition da :: string where
  "da = [CHR 0xD0, CHR 0xB4, CHR 0xD0, CHR 0xB0]"

definition net :: string where
  "net = [CHR 0xD0, CHR 0xBD, CHR 0xD0, CHR 0xB5, CHR 0xD1, CHR 0x82]"

definition obychnyi :: string where
  "obychnyi = [CHR 0xD0, CHR 0xBE, CHR 0xD0, CHR 0xB1, CHR 0xD1, CHR 0x8B, CHR 0xD1, CHR 0x87,
     CHR 0xD0, CHR 0xBD, CHR 0xD1, CHR 0x8B, CHR 0xD0, CHR 0xB9]"

definition obrabotan :: string where
  "obrabotan = [CHR 0xD0, CHR 0xBE, CHR 0xD0, CHR 0xB1, CHR 0xD1, CHR 0x80, CHR 0xD0, CHR 0xB0,
     CHR 0xD0, CHR 0xB1, CHR 0xD0, CHR 0xBE, CHR 0xD1, CHR 0x82, CHR 0xD0, CHR 0xB0, CHR 0xD0,
     CHR 0xBD]"

subsection \<open>\<open>GoogleSheetsDB.get_exclusions\<close>\<close>

text \<open>The dictionaries the function returns.\<close>

record exclusion =
  e_username :: string
  e_post_name :: string
  e_reason :: string
  e_date :: string

text \<open>
  The loop over the rows, with its two \<open>continue\<close> statements. The argument
  \<open>post_name\<close> is tested for truth, which for a string means non-empty. The TTL cache
  around the function is not modelled: \<open>add_exclusion\<close> clears it.
\<close>

fun get_exclusions_loop :: "(string \<Rightarrow> string) \<Rightarrow> string \<Rightarrow> exclusion_row list \<Rightarrow>
    exclusion list \<Rightarrow> exclusion list" where
  "get_exclusions_loop lower post_name [] exclusions = exclusions"
| "get_exclusions_loop lower post_name (row # data) exclusions =
     (if lower (ex_active row) \<noteq> da then
        get_exclusions_loop lower post_name data exclusions
      else if post_name \<noteq> [] \<and> ex_post_name row \<noteq> post_name then
        get_exclusions_loop lower post_name data exclusions
      else
        get_exclusions_loop lower post_name data
          (exclusions @ [\<lparr>e_username = ex_username row, e_post_name = ex_post_name row,
             e_reason = ex_reason row, e_date = ex_date row\<rparr>]))"

definition get_exclusions :: "(string \<Rightarrow> string) \<Rightarrow> db \<Rightarrow> string \<Rightarrow> exclusion list" where
  "get_exclusions lower db post_name =
     get_exclusions_loop lower post_name (ws_exclusions db) []"

subsection \<open>\<open>GoogleSheetsDB.save_activity\<close>\<close>

text \<open>
  \<open>post_data\<close> is a dictionary read with \<open>.get\<close> in some places and with \<open>[]\<close> in
  others, so every key may be absent.
\<close>

record post_data =
  pd_id :: "string option"
  pd_name :: "string option"
  pd_date :: "string option"
  pd_type :: "string option"
  pd_comment :: "string option"

text \<open>The dictionaries \<open>calculate_for_post\<close> returns and \<open>save_activity\<close> stores.\<close>

record scored =
  r_username :: string
  r_has_like :: bool
  r_has_comment :: bool
  r_matsuni :: int
  r_post_name :: string
  r_post_date :: string

text \<open>
  The loop building \<open>rows\<close>. Each row reads the clock on its own: \<open>clock i\<close> is
  \<open>datetime.now().strftime('%Y-%m-%d %H:%M:%S')\<close> as read for the row at index \<open>i\<close>.
\<close>

fun save_rows :: "(nat \<Rightarrow> string) \<Rightarrow> post_data \<Rightarrow> scored list \<Rightarrow> activity_row list \<Rightarrow>
    error + activity_row list" where
  "save_rows clock post_data [] rows = Inr rows"
| "save_rows clock post_data (activity # activities) rows =
     (case pd_id post_data of
        None \<Rightarrow> Inl KeyError
      | Some post_id \<Rightarrow>
          save_rows clock post_data activities
            (rows @ [\<lparr>row_post_id = post_id,
               row_username = r_username activity,
               row_like = (if r_has_like activity then da else net),
               row_comment = (if r_has_comment activity then da else net),
               row_matsuni = r_matsuni activity,
               row_check_time = clock (length rows)\<rparr>]))"

text \<open>
  The function returns \<open>True\<close> or raises; the sheet may already have been extended when
  the exception comes from building the row of the posts sheet, so the state is returned
  in both cases.
\<close>

definition save_activity :: "(nat \<Rightarrow> string) \<Rightarrow> post_data \<Rightarrow> scored list \<Rightarrow> db \<Rightarrow>
    (error + bool) \<times> db" where
  "save_activity clock post_data activities db =
     (case save_rows clock post_data activities [] of
        Inl e \<Rightarrow> (Inl e, db)
      | Inr rows \<Rightarrow>
          let db1 = (if rows \<noteq> [] then db\<lparr>ws_activity := ws_activity db @ rows\<rparr> else db)
          in case (pd_id post_data, pd_name post_data, pd_date post_data) of
               (Some post_id, Some name, Some date) \<Rightarrow>
                 (Inr True,
                  db1\<lparr>ws_posts := ws_posts db1 @
                    [\<lparr>p_number = post_id, p_name = name, p_date = date,
                      p_type = (case pd_type post_data of None \<Rightarrow> obychnyi | Some t \<Rightarrow> t),
                      p_status = obrabotan,
                      p_comment = (case pd_comment post_data of None \<Rightarrow> [] | Some c \<Rightarrow> c)\<rparr>]\<rparr>)
             | _ \<Rightarrow> (Inl KeyError, db1))"

subsection \<open>\<open>GoogleSheetsDB.calculate_totals\<close>\<close>

text \<open>The first loop: the ledger rows whose check date lies in the period.\<close>

fun period_loop :: "string \<Rightarrow> string \<Rightarrow> activity_row list \<Rightarrow> activity_row list \<Rightarrow>
    error + activity_row list" where
  "period_loop start_date end_date [] activities = Inr activities"
| "period_loop start_date end_date (row # data) activities =
     (case split_first (row_check_time row) of
        None \<Rightarrow> Inl IndexError
      | Some activity_date \<Rightarrow>
          if start_date \<le> activity_date \<and> activity_date \<le> end_date then
            period_loop start_date end_date data (activities @ [row])
          else period_loop start_date end_date data activities)"

text \<open>
  \<open>{row['Username']: row for row in members_ws.get_all_records()}\<close>: a later row
  replaces an earlier one with the same name.
\<close>

definition members_dict :: "member_row list \<Rightarrow> (string \<rightharpoonup> member_row)" where
  "members_dict rows = fold (\<lambda>row members. members(m_username row \<mapsto> row)) rows Map.empty"

text \<open>The values of the dictionary \<open>results\<close>.\<close>

record member_group =
  g_username :: string
  g_days_active :: "string set"
  g_total_matsuni :: int
  g_activities :: "activity_row list"

text \<open>
  The grouping loop. \<open>results\<close> is a dictionary iterated in insertion order later on,
  so it is an association list: a user met for the first time is added at the end with an
  empty group, and the group is then updated in place.
\<close>

fun group_loop :: "(string \<rightharpoonup> member_row) \<Rightarrow> activity_row list \<Rightarrow>
    (string \<times> member_group) list \<Rightarrow> error + (string \<times> member_group) list" where
  "group_loop members [] results = Inr results"
| "group_loop members (activity # activities) results =
     (let username = row_username activity
      in if members username = None then group_loop members activities results
         else
           let group = (case map_of results username of
                          None \<Rightarrow> \<lparr>g_username = username, g_days_active = {},
                                    g_total_matsuni = 0, g_activities = []\<rparr>
                        | Some g \<Rightarrow> g)
           in case split_first (row_check_time activity) of
                None \<Rightarrow> Inl IndexError
              | Some activity_date \<Rightarrow>
                  group_loop members activities
                    (dict_set results username
                       (group\<lparr>g_days_active := insert activity_date (g_days_active group),
                          g_total_matsuni := g_total_matsuni group + row_matsuni activity,
                          g_activities := g_activities group @ [activity]\<rparr>)))"

text \<open>The entries of \<open>final_results\<close>, before and after the rank is added.\<close>

record final_result =
  f_username :: string
  f_days_active :: nat
  f_total_matsuni :: int
  f_avg_matsuni :: rat
  f_join_date :: string
  f_status :: string

record ranked_result = final_result +
  f_rank :: nat

text \<open>
  The loop over \<open>results.items()\<close>. \<open>round2 x\<close> stands for \<open>round(x, 2)\<close> on the float
  nearest to \<open>x\<close>; the quotient handed to it is exact. A group whose user is not a key
  of \<open>members\<close> cannot occur (the grouping loop skips such users); \<open>members[username]\<close>
  would raise \<open>KeyError\<close>.
\<close>

fun final_loop :: "(rat \<Rightarrow> rat) \<Rightarrow> (string \<rightharpoonup> member_row) \<Rightarrow> (string \<times> member_group) list \<Rightarrow>
    final_result list \<Rightarrow> error + final_result list" where
  "final_loop round2 members [] final_results = Inr final_results"
| "final_loop round2 members ((username, data) # items) final_results =
     (let days_active = card (g_days_active data);
          avg_matsuni = (if days_active > 0
                         then of_int (g_total_matsuni data) / of_nat days_active else 0)
      in case members username of
           None \<Rightarrow> Inl KeyError
         | Some member \<Rightarrow>
             final_loop round2 members items
               (final_results @ [\<lparr>f_username = username, f_days_active = days_active,
                  f_total_matsuni = g_total_matsuni data, f_avg_matsuni = round2 avg_matsuni,
                  f_join_date = m_join_date member, f_status = m_status member\<rparr>]))"

text \<open>\<open>for i, result in enumerate(final_results, 1): result['rank'] = i\<close>\<close>

fun add_ranks :: "nat \<Rightarrow> final_result list \<Rightarrow> ranked_result list" where
  "add_ranks i [] = []"
| "add_ranks i (result # final_results) =
     final_result.extend result (ranked_result.fields i) # add_ranks (Suc i) final_results"

text \<open>The rows written to the totals sheet for the period.\<close>

definition new_rows :: "string \<Rightarrow> ranked_result list \<Rightarrow> cell list list" where
  "new_rows period_id final_results =
     map (\<lambda>result. [CStr period_id, CStr (f_username result), CInt (int (f_days_active result)),
                     CInt (f_total_matsuni result), CFlt (f_avg_matsuni result),
                     CInt (int (f_rank result))])
       final_results"

text \<open>The dictionary \<open>calculate_totals\<close> returns.\<close>

record totals =
  t_period :: string
  t_total_days :: int
  t_total_members :: nat
  t_total_matsuni :: int
  t_results :: "ranked_result list"

text \<open>
  \<open>strptime s\<close> stands for \<open>datetime.strptime(s, '%Y-%m-%d')\<close>: the day number of the
  date, or \<open>None\<close> for the \<open>ValueError\<close>. The two calls of \<open>validate_date\<close> at the top
  discard their result and have no effect. The function returns the state as well, since
  the totals sheet has been rewritten by the time \<open>strptime\<close> can fail.
\<close>

definition calculate_totals :: "(rat \<Rightarrow> rat) \<Rightarrow> (string \<Rightarrow> int option) \<Rightarrow> db \<Rightarrow> string \<Rightarrow> string \<Rightarrow>
    (error + totals) \<times> db" where
  "calculate_totals round2 strptime db start_date end_date =
     (case period_loop start_date end_date (ws_activity db) [] of
        Inl e \<Rightarrow> (Inl e, db)
      | Inr activities \<Rightarrow>
          (let members = members_dict (ws_members db)
           in (case group_loop members activities [] of
                 Inl e \<Rightarrow> (Inl e, db)
               | Inr results \<Rightarrow>
                   (case final_loop round2 members results [] of
                      Inl e \<Rightarrow> (Inl e, db)
                    | Inr unsorted \<Rightarrow>
                        (let final_results = add_ranks 1 (sorted_reverse f_total_matsuni unsorted);
                             period_id = start_date @ ''_'' @ end_date
                         in (case ws_totals db of
                               [] \<Rightarrow> (Inl IndexError, db)
                             | header # existing \<Rightarrow>
                                 (let rows_to_keep = header #
                                        filter (\<lambda>row. length row > 0 \<and> row ! 0 \<noteq> CStr period_id)
                                          existing;
                                      db' = db\<lparr>ws_totals :=
                                              rows_to_keep @ new_rows period_id final_results\<rparr>
                                  in (case (strptime end_date, strptime start_date) of
                                        (Some e, Some s) \<Rightarrow>
                                          (Inr \<lparr>t_period = start_date @ '' - '' @ end_date,
                                                t_total_days = e - s + 1,
                                                t_total_members = length final_results,
                                                t_total_matsuni =
                                                  sum_list (map f_total_matsuni final_results),
                                                t_results = final_results\<rparr>, db')
                                      | _ \<Rightarrow> (Inl ValueError, db')))))))))"

section \<open>Scoring engine: \<open>bot/services/matsuni_calc.py\<close>\<close>

text \<open>\<open>self.rules\<close>, with the defaults of the constructor.\<close>

record rules =
  max_per_day :: int
  like_only :: int
  comment_only :: int
  like_comment :: int

definition default_rules :: rules where
  "default_rules = \<lparr>max_per_day = 2, like_only = 1, comment_only = 2, like_comment = 2\<rparr>"

text \<open>An element of \<open>activities\<close>: a dictionary whose keys are all read with \<open>.get\<close>.\<close>

record activity =
  a_username :: "string option"
  a_has_like :: "bool option"
  a_has_comment :: "bool option"

subsection \<open>\<open>MatsuniCalculator._check_daily_limit\<close>\<close>

text \<open>
  The loop summing the ledger rows of the user whose check date is \<open>date\<close>. The check
  time is split only for rows of that user.
\<close>

fun daily_total_loop :: "string \<Rightarrow> string \<Rightarrow> activity_row list \<Rightarrow> int \<Rightarrow> error + int" where
  "daily_total_loop username date [] daily_total = Inr daily_total"
| "daily_total_loop username date (row # data) daily_total =
     (if row_username row = username then
        (case split_first (row_check_time row) of
           None \<Rightarrow> Inl IndexError
         | Some activity_date \<Rightarrow>
             if activity_date = date then
               daily_total_loop username date data (daily_total + row_matsuni row)
             else daily_total_loop username date data daily_total)
      else daily_total_loop username date data daily_total)"

definition check_daily_limit :: "rules \<Rightarrow> db \<Rightarrow> string \<Rightarrow> string \<Rightarrow> int \<Rightarrow> error + int" where
  "check_daily_limit rules db username date new_matsuni =
     (case daily_total_loop username date (ws_activity db) 0 of
        Inl e \<Rightarrow> Inl e
      | Inr daily_total \<Rightarrow>
          let remaining = max_per_day rules - daily_total
          in Inr (min new_matsuni (max 0 remaining)))"

subsection \<open>\<open>MatsuniCalculator.calculate_for_post\<close>\<close>

fun score_loop :: "rules \<Rightarrow> db \<Rightarrow> string \<Rightarrow> string \<Rightarrow> string set \<Rightarrow> activity list \<Rightarrow>
    scored list \<Rightarrow> error + scored list" where
  "score_loop rules db post_name post_date excluded_users [] results = Inr results"
| "score_loop rules db post_name post_date excluded_users (activity # activities) results =
     (let username = (case a_username activity of None \<Rightarrow> [] | Some u \<Rightarrow> u)
      in if username \<in> excluded_users then
           score_loop rules db post_name post_date excluded_users activities results
         else
           let has_like = (case a_has_like activity of None \<Rightarrow> False | Some b \<Rightarrow> b);
               has_comment = (case a_has_comment activity of None \<Rightarrow> False | Some b \<Rightarrow> b);
               matsuni = (if has_comment then like_comment rules
                          else if has_like then like_only rules
                          else 0)
           in case check_daily_limit rules db username post_date matsuni of
                Inl e \<Rightarrow> Inl e
              | Inr daily_limit \<Rightarrow>
                  let matsuni = (if daily_limit < matsuni then daily_limit else matsuni)
                  in score_loop rules db post_name post_date excluded_users activities
                       (results @ [\<lparr>r_username = username, r_has_like = has_like,
                          r_has_comment = has_comment, r_matsuni = matsuni,
                          r_post_name = post_name, r_post_date = post_date\<rparr>]))"

definition calculate_for_post :: "(string \<Rightarrow> string) \<Rightarrow> rules \<Rightarrow> db \<Rightarrow> post_data \<Rightarrow>
    activity list \<Rightarrow> error + scored list" where
  "calculate_for_post lower rules db post_data activities =
     (let post_name = (case pd_name post_data of None \<Rightarrow> [] | Some n \<Rightarrow> n);
          post_date = (case pd_date post_data of None \<Rightarrow> [] | Some d \<Rightarrow> d);
          exclusions = get_exclusions lower db post_name;
          excluded_users = set (map e_username exclusions)
      in score_loop rules db post_name post_date excluded_users activities [])"

text \<open>
  Scoring a post and committing the batch, as \<open>confirm_post\<close> and the save button of
  \<open>bot/main.py\<close> do one after the other. A post that cannot be scored or saved leaves
  the state as \<open>save_activity\<close> left it.
\<close>

definition process_post :: "(string \<Rightarrow> string) \<Rightarrow> rules \<Rightarrow> (nat \<Rightarrow> string) \<Rightarrow> post_data \<Rightarrow>
    activity list \<Rightarrow> db \<Rightarrow> db" where
  "process_post lower rules clock post_data activities db =
     (case calculate_for_post lower rules db post_data activities of
        Inl e \<Rightarrow> db
      | Inr results \<Rightarrow> snd (save_activity clock post_data results db))"

text \<open>
  What the daily cap is about, in the words of the specification: the sum of the matsuni
  of the ledger entries of one user on one date, the date of an entry being the date part
  of its timestamp.
\<close>

definition ledger_total :: "db \<Rightarrow> string \<Rightarrow> string \<Rightarrow> int" where
  "ledger_total db username date =
     sum_list (map row_matsuni
       (filter (\<lambda>row. row_username row = username \<and> split_first (row_check_time row) = Some date)
          (ws_activity db)))"

section \<open>Reference definitions\<close>

text \<open>
  The definitions of this section are not part of the program. They state loop
  invariants, give closed forms of what the loops compute, and name the notions the
  specification speaks of, so that the theorems can relate the program to them.
\<close>

subsection \<open>Invariants of the matrix loops\<close>

text \<open>
  The matrix has one row per prefix of \<open>s\<close> and one column per prefix of
  \<open>t\<close>.
\<close>

definition dims :: "'a list \<Rightarrow> 'a list \<Rightarrow> nat list list \<Rightarrow> bool" where
  "dims s t M = (length M = length s + 1 \<and> (\<forall>r \<le> length s. length (M ! r) = length t + 1))"

text \<open>
  After \<open>k\<close> rounds of the first border loop, column 0 is set in the rows
  below \<open>k\<close>.
\<close>

definition col_inv :: "'a list \<Rightarrow> 'a list \<Rightarrow> nat \<Rightarrow> nat list list \<Rightarrow> bool" where
  "col_inv s t k M = (dims s t M \<and> (\<forall>r < k. M ! r ! 0 = r))"

text \<open>
  After \<open>k\<close> rounds of the second border loop, column 0 is complete and row 0
  is set below column \<open>k\<close>.
\<close>

definition row_inv :: "'a list \<Rightarrow> 'a list \<Rightarrow> nat \<Rightarrow> nat list list \<Rightarrow> bool" where
  "row_inv s t k M =
     (dims s t M \<and> (\<forall>r \<le> length s. M ! r ! 0 = r) \<and> (\<forall>c < k. M ! 0 ! c = c))"

text \<open>The rows below \<open>i\<close> hold the edit distances of the recurrence.\<close>

definition rows_ok :: "'a list \<Rightarrow> 'a list \<Rightarrow> nat \<Rightarrow> nat list list \<Rightarrow> bool" where
  "rows_ok s t i M =
     (dims s t M \<and> (\<forall>r \<le> length s. M ! r ! 0 = r) \<and>
      (\<forall>r < i. \<forall>c \<le> length t. M ! r ! c = edit_distance s t r c))"

text \<open>In addition, row \<open>i\<close> holds them below column \<open>j\<close>.\<close>

definition cells_ok :: "'a list \<Rightarrow> 'a list \<Rightarrow> nat \<Rightarrow> nat \<Rightarrow> nat list list \<Rightarrow> bool" where
  "cells_ok s t i j M = (rows_ok s t i M \<and> (\<forall>c < j. M ! i ! c = edit_distance s t i c))"

subsection \<open>The matcher's dictionary\<close>

text \<open>
  The body of the loop that fills \<open>unique_found\<close>, as a function of the
  dictionary.
\<close>

definition unique_step :: "(string \<times> rat) list \<Rightarrow> string \<Rightarrow> rat \<Rightarrow> (string \<times> rat) list" where
  "unique_step uf u c =
     (case map_of uf u of None \<Rightarrow> dict_set uf u c
      | Some old \<Rightarrow> if c > old then dict_set uf u c else uf)"

subsection \<open>Scoring\<close>


text \<open>
  The set \<open>excluded_users\<close> that \<open>calculate_for_post\<close> builds from
  the answer of the exclusion source.
\<close>

definition excluded_users :: "(string \<Rightarrow> string) \<Rightarrow> db \<Rightarrow> string \<Rightarrow> string set" where
  "excluded_users lower db post_name = set (map e_username (get_exclusions lower db post_name))"

text \<open>\<open>activity.get('username', '')\<close>\<close>

definition get_username :: "activity \<Rightarrow> string" where
  "get_username activity = (case a_username activity of None \<Rightarrow> [] | Some u \<Rightarrow> u)"

text \<open>\<open>activity.get('has_like', False)\<close>\<close>

definition get_has_like :: "activity \<Rightarrow> bool" where
  "get_has_like activity = (case a_has_like activity of None \<Rightarrow> False | Some b \<Rightarrow> b)"

text \<open>\<open>activity.get('has_comment', False)\<close>\<close>

definition get_has_comment :: "activity \<Rightarrow> bool" where
  "get_has_comment activity = (case a_has_comment activity of None \<Rightarrow> False | Some b \<Rightarrow> b)"

text \<open>\<open>post_data.get('name', '')\<close>\<close>

definition get_name :: "post_data \<Rightarrow> string" where
  "get_name post_data = (case pd_name post_data of None \<Rightarrow> [] | Some n \<Rightarrow> n)"

text \<open>\<open>post_data.get('date', '')\<close>\<close>

definition get_date :: "post_data \<Rightarrow> string" where
  "get_date post_data = (case pd_date post_data of None \<Rightarrow> [] | Some d \<Rightarrow> d)"

text \<open>
  The rule table: the comment tier when there is a comment, else the like tier when there
  is a like, else nothing.
\<close>

definition raw_points :: "rules \<Rightarrow> bool \<Rightarrow> bool \<Rightarrow> int" where
  "raw_points rules has_like has_comment =
     (if has_comment then like_comment rules else if has_like then like_only rules else 0)"

text \<open>
  A user has a ledger row whose check time is blank, on which the daily-limit loop raises.
\<close>

definition unreadable :: "db \<Rightarrow> string \<Rightarrow> bool" where
  "unreadable db username =
     (\<exists>row \<in> set (ws_activity db).
        row_username row = username \<and> split_first (row_check_time row) = None)"

text \<open>
  The output row of one activity record that is not excluded: the raw points clamped to
  what the daily cap leaves after the ledger total of the user on the date of the post.
\<close>

definition score_one :: "rules \<Rightarrow> db \<Rightarrow> string \<Rightarrow> string \<Rightarrow> activity \<Rightarrow> scored" where
  "score_one rules db post_name post_date activity =
     \<lparr>r_username = get_username activity,
      r_has_like = get_has_like activity,
      r_has_comment = get_has_comment activity,
      r_matsuni = min (raw_points rules (get_has_like activity) (get_has_comment activity))
                      (max 0 (max_per_day rules
                              - ledger_total db (get_username activity) post_date)),
      r_post_name = post_name, r_post_date = post_date\<rparr>"

text \<open>No check time of the ledger is blank.\<close>

definition ledger_readable :: "db \<Rightarrow> bool" where
  "ledger_readable db = (\<forall>row \<in> set (ws_activity db). split_first (row_check_time row) \<noteq> None)"

subsection \<open>Sessions and the daily cap\<close>

text \<open>
  A sequence of sessions, each with its clock, its post and its activity list, scored and
  committed one after the other.
\<close>

fun process_posts :: "(string \<Rightarrow> string) \<Rightarrow> rules \<Rightarrow>
    ((nat \<Rightarrow> string) \<times> post_data \<times> activity list) list \<Rightarrow> db \<Rightarrow> db" where
  "process_posts lower rules [] db = db"
| "process_posts lower rules ((clock, post_data, activities) # sessions) db =
     process_posts lower rules sessions (process_post lower rules clock post_data activities db)"

text \<open>
  The invariant of the specification: no user has more than the daily cap on any date of
  the ledger.
\<close>

definition within_cap :: "rules \<Rightarrow> db \<Rightarrow> bool" where
  "within_cap rules db = (\<forall>username date. ledger_total db username date \<le> max_per_day rules)"

text \<open>
  A session whose rows are stamped with the date of its post and whose activity list names
  every user at most once.
\<close>

definition scored_on_post_date :: "(nat \<Rightarrow> string) \<times> post_data \<times> activity list \<Rightarrow> bool" where
  "scored_on_post_date session =
     (case session of (clock, post_data, activities) \<Rightarrow>
        (\<forall>i < length activities. split_first (clock i) = Some (get_date post_data)) \<and>
        distinct (map get_username activities))"

text \<open>The ledger row \<open>save_activity\<close> writes for an output row.\<close>

definition ledger_row :: "string \<Rightarrow> scored \<Rightarrow> string \<Rightarrow> activity_row" where
  "ledger_row post_id activity check_time =
     \<lparr>row_post_id = post_id, row_username = r_username activity,
      row_like = (if r_has_like activity then da else net),
      row_comment = (if r_has_comment activity then da else net),
      row_matsuni = r_matsuni activity, row_check_time = check_time\<rparr>"

subsection \<open>Aggregation\<close>

text \<open>The check date of a ledger row lies between the two dates, both included.\<close>

definition in_period :: "string \<Rightarrow> string \<Rightarrow> activity_row \<Rightarrow> bool" where
  "in_period start_date end_date row =
     (case split_first (row_check_time row) of
        None \<Rightarrow> False
      | Some activity_date \<Rightarrow> start_date \<le> activity_date \<and> activity_date \<le> end_date)"

text \<open>Every element once, in the order of first occurrence.\<close>

definition first_seen :: "'a list \<Rightarrow> 'a list" where
  "first_seen xs = rev (remdups (rev xs))"

text \<open>The user has a row in the members sheet.\<close>

definition is_member :: "db \<Rightarrow> string \<Rightarrow> bool" where
  "is_member db username = (username \<in> m_username ` set (ws_members db))"

text \<open>The ledger rows of the period that belong to members.\<close>

definition period_entries :: "db \<Rightarrow> string \<Rightarrow> string \<Rightarrow> activity_row list" where
  "period_entries db start_date end_date =
     filter (\<lambda>row. in_period start_date end_date row \<and> is_member db (row_username row))
       (ws_activity db)"

text \<open>
  The members with an entry in the period, in the order in which the grouping loop meets
  them.
\<close>

definition encounter_order :: "db \<Rightarrow> string \<Rightarrow> string \<Rightarrow> string list" where
  "encounter_order db start_date end_date =
     first_seen (map row_username (period_entries db start_date end_date))"

text \<open>The sum of the matsuni of a member over the period.\<close>

definition member_total :: "db \<Rightarrow> string \<Rightarrow> string \<Rightarrow> string \<Rightarrow> int" where
  "member_total db start_date end_date username =
     sum_list (map row_matsuni
       (filter (\<lambda>row. row_username row = username) (period_entries db start_date end_date)))"

text \<open>The body of the grouping loop for a member row, as a function of the dictionary.\<close>

definition group_step :: "activity_row \<Rightarrow> string \<Rightarrow> (string \<times> member_group) list \<Rightarrow>
    (string \<times> member_group) list" where
  "group_step activity activity_date results =
     (let username = row_username activity;
          group = (case map_of results username of
                     None \<Rightarrow> \<lparr>g_username = username, g_days_active = {},
                               g_total_matsuni = 0, g_activities = []\<rparr>
                   | Some g \<Rightarrow> g)
      in dict_set results username
           (group\<lparr>g_days_active := insert activity_date (g_days_active group),
              g_total_matsuni := g_total_matsuni group + row_matsuni activity,
              g_activities := g_activities group @ [activity]\<rparr>))"

text \<open>
  What the grouping loop has built after a list of rows: the keys in order of first
  occurrence, each with the sum of its rows.
\<close>

definition grouped :: "(string \<rightharpoonup> member_row) \<Rightarrow> activity_row list \<Rightarrow>
    (string \<times> member_group) list \<Rightarrow> bool" where
  "grouped members activities results =
     (map fst results =
        first_seen (map row_username (filter (\<lambda>a. members (row_username a) \<noteq> None) activities)) \<and>
      (\<forall>u g. map_of results u = Some g \<longrightarrow>
         g_total_matsuni g =
           sum_list (map row_matsuni (filter (\<lambda>a. row_username a = u)
             (filter (\<lambda>a. members (row_username a) \<noteq> None) activities)))))"

text \<open>The part of \<open>calculate_totals\<close> before the totals sheet is touched.\<close>

definition compute_ranking :: "(rat \<Rightarrow> rat) \<Rightarrow> db \<Rightarrow> string \<Rightarrow> string \<Rightarrow> error + ranked_result list" where
  "compute_ranking round2 db start_date end_date =
     (case period_loop start_date end_date (ws_activity db) [] of
        Inl e \<Rightarrow> Inl e
      | Inr activities \<Rightarrow>
          (case group_loop (members_dict (ws_members db)) activities [] of
             Inl e \<Rightarrow> Inl e
           | Inr results \<Rightarrow>
               (case final_loop round2 (members_dict (ws_members db)) results [] of
                  Inl e \<Rightarrow> Inl e
                | Inr unsorted \<Rightarrow> Inr (add_ranks 1 (sorted_reverse f_total_matsuni unsorted)))))"

text \<open>The rows of the totals sheet that survive the rewrite: those of other periods.\<close>

definition kept_row :: "string \<Rightarrow> cell list \<Rightarrow> bool" where
  "kept_row period_id row = (length row > 0 \<and> row ! 0 \<noteq> CStr period_id)"

text \<open>
  The dictionary returned at the end, or the \<open>ValueError\<close> of
  \<open>strptime\<close>.
\<close>

definition totals_dict :: "(string \<Rightarrow> int option) \<Rightarrow> string \<Rightarrow> string \<Rightarrow> ranked_result list \<Rightarrow>
    error + totals" where
  "totals_dict strptime start_date end_date final_results =
     (case (strptime end_date, strptime start_date) of
        (Some e, Some s) \<Rightarrow>
          Inr \<lparr>t_period = start_date @ '' - '' @ end_date,
               t_total_days = e - s + 1,
               t_total_members = length final_results,
               t_total_matsuni = sum_list (map f_total_matsuni final_results),
               t_results = final_results\<rparr>
      | _ \<Rightarrow> Inl ValueError)"

section \<open>Concrete sheets, posts and reports\<close>

text \<open>A spreadsheet with no rows but the header of the totals sheet.\<close>

definition new_db :: db where
  "new_db = \<lparr>ws_members = [], ws_posts = [], ws_activity = [], ws_exclusions = [],
     ws_totals = [[CStr ''Period'', CStr ''Username'', CStr ''Days'', CStr ''Total'',
                   CStr ''Average'', CStr ''Rank'']]\<rparr>"

text \<open>
  The \<open>post_data\<close> that \<open>confirm_post\<close> of
  \<open>bot/main.py\<close> builds: the id is name, date and time of day joined by
  underscores.
\<close>

definition session_post :: "string \<Rightarrow> string \<Rightarrow> string \<Rightarrow> post_data" where
  "session_post name date hhmmss =
     \<lparr>pd_id = Some (name @ ''_'' @ date @ ''_'' @ hhmmss), pd_name = Some name,
      pd_date = Some date, pd_type = None, pd_comment = None\<rparr>"

text \<open>An activity record as \<open>confirm_post\<close> builds it, with all three keys.\<close>

definition session_activity :: "string \<Rightarrow> bool \<Rightarrow> bool \<Rightarrow> activity" where
  "session_activity member has_like has_comment =
     \<lparr>a_username = Some member, a_has_like = Some has_like, a_has_comment = Some has_comment\<rparr>"

text \<open>A ledger row.\<close>

definition ledger_entry :: "string \<Rightarrow> string \<Rightarrow> int \<Rightarrow> string \<Rightarrow> activity_row" where
  "ledger_entry post_id username matsuni check_time =
     \<lparr>row_post_id = post_id, row_username = username, row_like = net, row_comment = da,
      row_matsuni = matsuni, row_check_time = check_time\<rparr>"

text \<open>A ledger in which dan already holds two matsuni on 2024-01-01.\<close>

definition cap_db :: db where
  "cap_db = new_db\<lparr>ws_activity :=
     [ledger_entry ''art_day_2024-01-01_090000'' ''dan'' 2 ''2024-01-01 09:00:00'']\<rparr>"

text \<open>Carol commented, dan liked, erin did neither.\<close>

definition cap_activities :: "activity list" where
  "cap_activities = [session_activity ''carol'' False True, session_activity ''dan'' True False,
                     session_activity ''erin'' False False]"

text \<open>
  Two posts dated 2024-01-01, each with a comment of alice, both scored and committed on
  the evening of 2024-01-02.
\<close>

definition late_sessions :: "((nat \<Rightarrow> string) \<times> post_data \<times> activity list) list" where
  "late_sessions =
     [(\<lambda>i. ''2024-01-02 18:00:00'', session_post ''vibro'' ''2024-01-01'' ''180000'',
       [session_activity ''alice'' False True]),
      (\<lambda>i. ''2024-01-02 18:30:00'', session_post ''art_day'' ''2024-01-01'' ''183000'',
       [session_activity ''alice'' False True])]"

text \<open>
  An exclusions sheet with one active row, for alice and the post name \<open>all\<close>.
\<close>

definition wildcard_db :: db where
  "wildcard_db = new_db\<lparr>ws_exclusions :=
     [\<lparr>ex_username = ''alice'', ex_post_name = ''all'', ex_reason = ''on leave'',
       ex_date = ''2024-01-01'', ex_active = da\<rparr>]\<rparr>"



text \<open>
  Three members; a ledger with entries of the three in and out of the period, and one
  entry of a user who is not a member. u1 and u3 tie at five matsuni, u1 being met first.
\<close>

definition period_db :: db where
  "period_db = new_db\<lparr>
     ws_members :=
       [\<lparr>m_username = ''u1'', m_join_date = ''2023-12-01'', m_status = ''active'', m_telegram_id = []\<rparr>,
        \<lparr>m_username = ''u2'', m_join_date = ''2023-12-01'', m_status = ''active'', m_telegram_id = []\<rparr>,
        \<lparr>m_username = ''u3'', m_join_date = ''2023-12-01'', m_status = ''active'', m_telegram_id = []\<rparr>],
     ws_activity :=
       [ledger_entry ''p1'' ''u2'' 1 ''2024-01-01 10:00:00'',
        ledger_entry ''p1'' ''u1'' 3 ''2024-01-01 10:00:00'',
        ledger_entry ''p2'' ''u1'' 2 ''2024-01-02 10:00:00'',
        ledger_entry ''p2'' ''u3'' 5 ''2024-01-02 10:00:01'',
        ledger_entry ''p3'' ''u3'' 4 ''2024-02-01 10:00:00'',
        ledger_entry ''p2'' ''guest'' 2 ''2024-01-02 10:00:02'']\<rparr>"

text \<open>The day numbers \<open>strptime\<close> yields for the two dates used below.\<close>

definition january_days :: "string \<Rightarrow> int option" where
  "january_days s =
     (if s = ''2024-01-01'' then Some 738886
      else if s = ''2024-01-02'' then Some 738887
      else None)"

text \<open>The report of \<open>period_db\<close> for the first two days of January 2024.\<close>

definition period_report :: totals where
  "period_report =
     \<lparr>t_period = ''2024-01-01 - 2024-01-02'', t_total_days = 2, t_total_members = 3,
      t_total_matsuni = 11,
      t_results =
        [\<lparr>f_username = ''u1'', f_days_active = 2, f_total_matsuni = 5, f_avg_matsuni = 5 / 2,
           f_join_date = ''2023-12-01'', f_status = ''active'', f_rank = 1\<rparr>,
         \<lparr>f_username = ''u3'', f_days_active = 1, f_total_matsuni = 5, f_avg_matsuni = 5,
           f_join_date = ''2023-12-01'', f_status = ''active'', f_rank = 2\<rparr>,
         \<lparr>f_username = ''u2'', f_days_active = 1, f_total_matsuni = 1, f_avg_matsuni = 1,
           f_join_date = ''2023-12-01'', f_status = ''active'', f_rank = 3\<rparr>]\<rparr>"

section \<open>Properties of the identity matcher\<close>

subsection \<open>Edit distance and substrings\<close>

lemma edit_distance_sym: "edit_distance s t i j = edit_distance t s j i"
proof (induction s t i j rule: edit_distance.induct)
  case (1 s t j)
  then show ?case by (cases j) simp_all
next
  case (2 s t i)
  then show ?case by simp
next
  case (3 s t i j)
  then show ?case by (simp add: min.commute min.left_commute eq_commute)
qed

lemma edit_distance_le_max: "edit_distance s t i j \<le> max i j"
  by (induction s t i j rule: edit_distance.induct) (auto simp: min_def)

lemma startswith_length: "startswith s p \<Longrightarrow> length p \<le> length s"
  by (induction s p rule: startswith.induct) auto

lemma startswith_same_length: "startswith s p \<Longrightarrow> length p = length s \<Longrightarrow> p = s"
  by (induction s p rule: startswith.induct) auto

lemma str_in_length: "str_in needle hay \<Longrightarrow> length needle \<le> length hay"
  by (induction hay) (auto dest: startswith_length)

lemma str_in_same_length: "str_in needle hay \<Longrightarrow> length needle = length hay \<Longrightarrow> needle = hay"
proof (induction hay)
  case Nil
  then show ?case by simp
next
  case (Cons c cs)
  from Cons.prems show ?case
    by (auto dest: startswith_same_length str_in_length)
qed

lemma str_in_empty: "str_in [] hay"
  by (induction hay) auto

subsection \<open>The matrix loops compute the recurrence\<close>

text \<open>A \<open>for\<close> loop over a range keeps an invariant that each round keeps.\<close>

lemma fold_upt_invariant:
  assumes "P a x" and "a \<le> b"
    and "\<And>i x. a \<le> i \<Longrightarrow> i < b \<Longrightarrow> P i x \<Longrightarrow> P (Suc i) (f i x)"
  shows "P b (fold f [a..<b] x)"
  using assms(2,3)
proof (induction b)
  case 0
  with assms(1) show ?case by simp
next
  case (Suc b)
  show ?case
  proof (cases "a = Suc b")
    case True
    with assms(1) show ?thesis by simp
  next
    case False
    with Suc.prems have le: "a \<le> b" by simp
    have "P b (fold f [a..<b] x)"
      using le Suc.prems(2) by (intro Suc.IH) auto
    then have "P (Suc b) (f b (fold f [a..<b] x))"
      using le by (intro Suc.prems(2)) auto
    with le show ?thesis by simp
  qed
qed

lemma dims_set_cell: "dims s t M \<Longrightarrow> dims s t (set_cell M i j v)"
  unfolding dims_def set_cell_def
proof (intro conjI allI impI)
  assume a: "length M = length s + 1 \<and> (\<forall>r\<le>length s. length (M ! r) = length t + 1)"
  then show "length (M[i := (M ! i)[j := v]]) = length s + 1" by simp
  fix r assume r: "r \<le> length s"
  with a have "r < length M" by simp
  then show "length (M[i := (M ! i)[j := v]] ! r) = length t + 1"
    using a r by (cases "r = i") simp_all
qed

lemma nth_set_cell:
  assumes "dims s t M" "i \<le> length s" "j \<le> length t" "r \<le> length s"
  shows "set_cell M i j v ! r ! c = (if r = i \<and> c = j then v else M ! r ! c)"
proof -
  have len: "i < length M" "r < length M" "j < length (M ! i)"
    using assms by (simp_all add: dims_def)
  show ?thesis
  proof (cases "r = i")
    case True
    with len show ?thesis by (simp add: set_cell_def nth_list_update)
  next
    case False
    with len show ?thesis by (simp add: set_cell_def)
  qed
qed

lemma dims_zero_matrix: "dims s t (zero_matrix s t)"
proof -
  have "\<And>r. r \<le> length s \<Longrightarrow> replicate (length s + 1) (replicate (length t + 1) (0::nat)) ! r
      = replicate (length t + 1) 0"
    by (intro nth_replicate) simp
  then show ?thesis
    unfolding dims_def zero_matrix_def by (simp del: replicate.simps)
qed

lemma init_col:
  assumes "dims s t M"
  shows "col_inv s t (length s + 1)
     (fold (\<lambda>i matrix. set_cell matrix i 0 i) [0..<length s + 1] M)"
proof (rule fold_upt_invariant [where P = "col_inv s t"])
  show "col_inv s t 0 M" using assms by (simp add: col_inv_def)
  show "0 \<le> length s + 1" by simp
next
  fix i x
  assume i: "i < length s + 1" and inv: "col_inv s t i x"
  have d: "dims s t x" using inv by (simp add: col_inv_def)
  have "\<And>r. r < Suc i \<Longrightarrow> set_cell x i 0 i ! r ! 0 = r"
  proof -
    fix r assume "r < Suc i"
    with i inv d show "set_cell x i 0 i ! r ! 0 = r"
      by (cases "r = i") (simp_all add: nth_set_cell [of s t] col_inv_def)
  qed
  with inv show "col_inv s t (Suc i) (set_cell x i 0 i)"
    by (simp add: dims_set_cell col_inv_def)
qed

lemma init_row:
  assumes "dims s t M" "\<forall>r \<le> length s. M ! r ! 0 = r"
  shows "row_inv s t (length t + 1) (fold (\<lambda>j matrix. set_cell matrix 0 j j) [0..<length t + 1] M)"
proof (rule fold_upt_invariant [where P = "row_inv s t"])
  show "row_inv s t 0 M"
    using assms by (simp add: row_inv_def)
  show "0 \<le> length t + 1" by simp
next
  fix j x
  assume j: "j < length t + 1" and inv: "row_inv s t j x"
  have d: "dims s t x" using inv by (simp add: row_inv_def)
  have col: "\<And>r. r \<le> length s \<Longrightarrow> set_cell x 0 j j ! r ! 0 = r"
  proof -
    fix r assume "r \<le> length s"
    with j inv d show "set_cell x 0 j j ! r ! 0 = r"
      by (simp add: nth_set_cell row_inv_def)
  qed
  have row: "\<And>c. c < Suc j \<Longrightarrow> set_cell x 0 j j ! 0 ! c = c"
  proof -
    fix c assume "c < Suc j"
    with j inv d show "set_cell x 0 j j ! 0 ! c = c"
      by (cases "c = j") (simp_all add: nth_set_cell row_inv_def)
  qed
  from d col row show "row_inv s t (Suc j) (set_cell x 0 j j)"
    by (simp add: dims_set_cell row_inv_def)
qed

lemma borders_init: "row_inv s t (length t + 1) (init_borders s t)"
proof -
  let ?A = "fold (\<lambda>i matrix. set_cell matrix i 0 i) [0..<length s + 1] (zero_matrix s t)"
  have "col_inv s t (length s + 1) ?A"
    by (rule init_col [OF dims_zero_matrix])
  then have a: "dims s t ?A" "\<forall>r \<le> length s. ?A ! r ! 0 = r"
    by (simp_all add: col_inv_def less_Suc_eq_le)
  have "row_inv s t (length t + 1)
      (fold (\<lambda>j matrix. set_cell matrix 0 j j) [0..<length t + 1] ?A)"
    by (rule init_row [OF a])
  then show ?thesis by (simp only: init_borders_def)
qed

lemma fill_cell_step:
  assumes ok: "cells_ok s t i j M" and i: "1 \<le> i" "i \<le> length s" and j: "1 \<le> j" "j \<le> length t"
  shows "cells_ok s t i (Suc j) (fill_cell s t i j M)"
proof -
  obtain i' j' where ij: "i = Suc i'" "j = Suc j'"
    using i j by (cases i; cases j) auto
  have rows: "rows_ok s t i M" and row: "\<forall>c < j. M ! i ! c = edit_distance s t i c"
    using ok by (simp_all add: cells_ok_def)
  have d: "dims s t M" using rows by (simp add: rows_ok_def)
  have up: "M ! i' ! j = edit_distance s t i' j" "M ! i' ! j' = edit_distance s t i' j'"
    using rows ij j by (auto simp: rows_ok_def)
  have left: "M ! i ! j' = edit_distance s t i j'"
    using row ij by simp
  let ?v = "edit_distance s t i j"
  have fc: "fill_cell s t i j M = set_cell M i j ?v"
    using up left ij by (simp add: fill_cell_def Let_def)
  have nth: "\<And>r c. r \<le> length s \<Longrightarrow>
      fill_cell s t i j M ! r ! c = (if r = i \<and> c = j then ?v else M ! r ! c)"
    unfolding fc using d i j by (simp add: nth_set_cell [of s t])
  have "rows_ok s t i (fill_cell s t i j M)"
    unfolding rows_ok_def
  proof (intro conjI allI impI)
    show "dims s t (fill_cell s t i j M)" unfolding fc by (rule dims_set_cell [OF d])
  next
    fix r assume "r \<le> length s"
    then show "fill_cell s t i j M ! r ! 0 = r"
      using rows j by (simp add: nth rows_ok_def)
  next
    fix r c assume "r < i" "c \<le> length t"
    then show "fill_cell s t i j M ! r ! c = edit_distance s t r c"
      using rows i by (simp add: nth rows_ok_def)
  qed
  moreover have "\<forall>c < Suc j. fill_cell s t i j M ! i ! c = edit_distance s t i c"
    using row i by (simp add: nth less_Suc_eq)
  ultimately show ?thesis by (simp add: cells_ok_def)
qed

lemma fill_row_step:
  assumes ok: "rows_ok s t i M" and i: "1 \<le> i" "i \<le> length s"
  shows "rows_ok s t (Suc i) (fill_row s t i M)"
proof -
  have start: "cells_ok s t i 1 M"
    using ok i by (cases i) (simp_all add: rows_ok_def cells_ok_def)
  have "cells_ok s t i (length t + 1) (fold (fill_cell s t i) [1..<length t + 1] M)"
  proof (rule fold_upt_invariant [where P = "cells_ok s t i"])
    show "cells_ok s t i 1 M" by (rule start)
    show "1 \<le> length t + 1" by simp
  next
    fix j x assume "1 \<le> j" "j < length t + 1" "cells_ok s t i j x"
    then show "cells_ok s t i (Suc j) (fill_cell s t i j x)"
      using i by (intro fill_cell_step) simp_all
  qed
  then have F: "cells_ok s t i (length t + 1) (fill_row s t i M)"
    by (simp only: fill_row_def)
  show ?thesis
    unfolding rows_ok_def
  proof (intro conjI allI impI)
    show "dims s t (fill_row s t i M)" using F by (simp add: rows_ok_def cells_ok_def)
  next
    fix r assume "r \<le> length s"
    then show "fill_row s t i M ! r ! 0 = r" using F by (simp add: rows_ok_def cells_ok_def)
  next
    fix r c assume rc: "r < Suc i" "c \<le> length t"
    show "fill_row s t i M ! r ! c = edit_distance s t r c"
    proof (cases "r = i")
      case True
      with F rc show ?thesis by (simp add: cells_ok_def)
    next
      case False
      with rc have "r < i" by simp
      with F rc show ?thesis by (simp add: rows_ok_def cells_ok_def)
    qed
  qed
qed

lemma levenshtein_matrix_rows_ok:
  "rows_ok s t (length s + 1) (levenshtein_matrix s t)"
  unfolding levenshtein_matrix_def
proof (rule fold_upt_invariant [where P = "rows_ok s t"])
  have "\<And>c. c \<le> length t \<Longrightarrow> c < length t + 1" by simp
  then show "rows_ok s t 1 (init_borders s t)"
    using borders_init [of s t] by (simp add: row_inv_def rows_ok_def)
  show "1 \<le> length s + 1" by simp
next
  fix i x assume "1 \<le> i" "i < length s + 1" "rows_ok s t i x"
  then show "rows_ok s t (Suc i) (fill_row s t i x)"
    by (intro fill_row_step) simp_all
qed

text \<open>The cell read at the end is the edit distance of the two strings.\<close>

lemma levenshtein_matrix_correct:
  "levenshtein_matrix s t ! length s ! length t = edit_distance s t (length s) (length t)"
  using levenshtein_matrix_rows_ok [of s t] by (simp add: rows_ok_def)

subsection \<open>The similarity score\<close>

lemma levenshtein_matrix_sym:
  "levenshtein_matrix a b ! length a ! length b = levenshtein_matrix b a ! length b ! length a"
  by (simp only: levenshtein_matrix_correct edit_distance_sym [of a b])

text \<open>
  Claim C9. The similarity score is symmetric: \<open>_calculate_similarity\<close> returns the
  same value for \<open>(a, b)\<close> and for \<open>(b, a)\<close>, whichever of its three tiers
  decides: equal strings, one string inside the other, or the edit distance over the
  longer length.
\<close>

theorem similarity_symmetric: "calculate_similarity a b = calculate_similarity b a"
proof (cases "a = b")
  case True
  then show ?thesis by simp
next
  case ne: False
  then have ne': "b \<noteq> a" by blast
  show ?thesis
  proof (cases "length a = length b")
    case True
    have "\<not> str_in a b" "\<not> str_in b a"
      using ne True str_in_same_length [of a b] str_in_same_length [of b a] by auto
    then show ?thesis
      unfolding calculate_similarity_def Let_def levenshtein_matrix_sym [of a b]
      using ne ne' True by (simp add: max.commute)
  next
    case False
    then consider "length a < length b" | "length b < length a" by linarith
    then show ?thesis
    proof cases
      case 1
      then show ?thesis
        unfolding calculate_similarity_def Let_def levenshtein_matrix_sym [of a b]
        using ne ne' by (simp add: max.commute)
    next
      case 2
      then show ?thesis
        unfolding calculate_similarity_def Let_def levenshtein_matrix_sym [of a b]
        using ne ne' by (simp add: max.commute)
    qed
  qed
qed

text \<open>The claim at kitten and sitting, three edits apart over seven characters.\<close>

theorem similarity_symmetric_witness:
  "calculate_similarity ''kitten'' ''sitting'' = 4 / 7 \<and>
   calculate_similarity ''sitting'' ''kitten'' = calculate_similarity ''kitten'' ''sitting''"
proof -
  have "calculate_similarity ''kitten'' ''sitting'' = 4 / 7"
    by code_simp
  with similarity_symmetric [of "''sitting''" "''kitten''"] show ?thesis by blast
qed

lemma lev_ratio_range:
  fixes d m :: nat
  assumes "d \<le> m" "m \<noteq> 0"
  shows "0 \<le> 1 - (of_nat d / of_nat m :: rat) \<and> 1 - (of_nat d / of_nat m :: rat) \<le> 1"
proof -
  have "(of_nat d :: rat) \<le> of_nat m" using assms(1) by (simp only: of_nat_le_iff)
  moreover have "(0::rat) < of_nat m" using assms(2) by simp
  ultimately have "(of_nat d / of_nat m :: rat) \<le> 1" by (simp add: divide_le_eq_1)
  moreover have "0 \<le> (of_nat d / of_nat m :: rat)" by simp
  ultimately show ?thesis by linarith
qed

text \<open>The score lies between 0 and 1.\<close>

lemma calculate_similarity_range:
  "0 \<le> calculate_similarity a b \<and> calculate_similarity a b \<le> 1"
proof -
  let ?d = "edit_distance a b (length a) (length b)"
  let ?m = "max (length a) (length b)"
  have dm: "?d \<le> ?m" by (rule edit_distance_le_max)
  show ?thesis
  proof (cases "?m = 0")
    case True
    then show ?thesis by (simp add: calculate_similarity_def)
  next
    case False
    from lev_ratio_range [OF dm False] show ?thesis
      unfolding calculate_similarity_def Let_def levenshtein_matrix_correct
      by (simp only: split: if_split) simp
  qed
qed

lemma calculate_similarity_empty:
  "m \<noteq> [] \<Longrightarrow> calculate_similarity [] m = 9 / 10"
  by (simp add: calculate_similarity_def str_in_empty)

subsection \<open>Matching, deduplication and order\<close>

lemma match_members_eq:
  "match_members lower u mc ms found =
     found @ map (\<lambda>m. (m, calculate_similarity (lower u) (lower m)))
               (filter (\<lambda>m. mc \<le> calculate_similarity (lower u) (lower m)) ms)"
  by (induction ms arbitrary: found) (simp_all add: Let_def)

lemma match_tokens_set:
  "set (match_tokens lower mc ms toks found) =
     set found \<union> {(m, calculate_similarity (lower u) (lower m)) | m u.
        m \<in> set ms \<and> u \<in> set toks \<and> mc \<le> calculate_similarity (lower u) (lower m)}"
proof (induction toks arbitrary: found)
  case Nil
  then show ?case by simp
next
  case (Cons u toks)
  show ?case
    unfolding match_tokens.simps Cons.IH match_members_eq
    by auto
qed

lemma dict_set_keys:
  "map fst (dict_set d k v) = (if k \<in> fst ` set d then map fst d else map fst d @ [k])"
proof (induction d)
  case Nil
  then show ?case by simp
next
  case (Cons p d)
  obtain k' v' where p: "p = (k', v')" by (cases p)
  show ?case
  proof (cases "k' = k")
    case True
    then show ?thesis by (simp add: p)
  next
    case False
    then have "(k \<in> fst ` set (p # d)) = (k \<in> fst ` set d)" by (auto simp: p)
    with False Cons.IH show ?thesis by (simp add: p)
  qed
qed

lemma dict_set_distinct:
  "distinct (map fst d) \<Longrightarrow> distinct (map fst (dict_set d k v))"
  by (simp add: dict_set_keys)

lemma dict_set_mem:
  "distinct (map fst d) \<Longrightarrow>
   (q \<in> set (dict_set d k v)) = (q = (k, v) \<or> (q \<in> set d \<and> fst q \<noteq> k))"
proof (induction d)
  case Nil
  then show ?case by simp
next
  case (Cons p d)
  obtain k' v' where p: "p = (k', v')" by (cases p)
  show ?case
  proof (cases "k' = k")
    case True
    with Cons.prems p have "k \<notin> fst ` set d" by simp
    then have "fst q \<noteq> k" if "q \<in> set d" using that by force
    with True show ?thesis by (auto simp: p)
  next
    case False
    from Cons.prems have "distinct (map fst d)" by simp
    from Cons.IH [OF this] False show ?thesis by (auto simp: p)
  qed
qed

lemma unique_step_cases:
  "unique_step uf u c = dict_set uf u c \<or> unique_step uf u c = uf"
  by (simp add: unique_step_def split: option.split)

lemma unique_step_distinct:
  "distinct (map fst uf) \<Longrightarrow> distinct (map fst (unique_step uf u c))"
  using unique_step_cases [of uf u c] by (auto simp: dict_set_distinct)

lemma unique_step_subset:
  assumes "distinct (map fst uf)"
  shows "set (unique_step uf u c) \<subseteq> insert (u, c) (set uf)"
proof
  fix q assume q: "q \<in> set (unique_step uf u c)"
  from unique_step_cases [of uf u c] show "q \<in> insert (u, c) (set uf)"
  proof
    assume "unique_step uf u c = dict_set uf u c"
    with q assms show "q \<in> insert (u, c) (set uf)" by (auto simp add: dict_set_mem)
  next
    assume "unique_step uf u c = uf"
    with q show "q \<in> insert (u, c) (set uf)" by simp
  qed
qed

lemma unique_step_covers:
  assumes d: "distinct (map fst uf)" and p: "(k, v) \<in> insert (u, c) (set uf)"
  shows "\<exists>v'. v \<le> v' \<and> (k, v') \<in> set (unique_step uf u c)"
proof (cases "map_of uf u")
  case None
  then have us: "unique_step uf u c = dict_set uf u c"
    by (simp add: unique_step_def)
  from None have "u \<notin> fst ` set uf" by (simp add: map_of_eq_None_iff)
  then have "k \<noteq> u" if "(k, v) \<in> set uf" using that by force
  with p have "(k, v) \<in> set (dict_set uf u c)"
    by (auto simp: dict_set_mem [OF d])
  then show ?thesis unfolding us by blast
next
  case (Some old)
  then have old: "(u, old) \<in> set uf" by (rule map_of_SomeD)
  have uniq: "w = old" if "(u, w) \<in> set uf" for w
    using d that old by (rule eq_key_imp_eq_value)
  show ?thesis
  proof (cases "c > old")
    case True
    then have us: "unique_step uf u c = dict_set uf u c"
      using Some by (simp add: unique_step_def)
    show ?thesis
    proof (cases "k = u")
      case ku: True
      with p uniq have "v = c \<or> v = old" by auto
      with True have "v \<le> c" by auto
      moreover have "(k, c) \<in> set (dict_set uf u c)"
        by (simp add: dict_set_mem [OF d] ku)
      ultimately show ?thesis unfolding us by blast
    next
      case False
      with p have "(k, v) \<in> set (dict_set uf u c)"
        by (auto simp: dict_set_mem [OF d])
      then show ?thesis unfolding us by blast
    qed
  next
    case False
    then have us: "unique_step uf u c = uf"
      using Some by (simp add: unique_step_def)
    show ?thesis
    proof (cases "(k, v) = (u, c)")
      case True
      with False have "v \<le> old" "(k, old) \<in> set uf" using old by auto
      then show ?thesis unfolding us by blast
    next
      case False
      with p have "(k, v) \<in> set uf" by auto
      then show ?thesis unfolding us by blast
    qed
  qed
qed

lemma unique_loop_step:
  "unique_loop ((u, c) # found) uf = unique_loop found (unique_step uf u c)"
  by (simp only: unique_loop.simps unique_step_def)

lemma unique_loop_distinct:
  "distinct (map fst uf) \<Longrightarrow> distinct (map fst (unique_loop found uf))"
proof (induction found arbitrary: uf)
  case Nil
  then show ?case by simp
next
  case (Cons p found)
  obtain u c where p: "p = (u, c)" by (cases p)
  show ?case unfolding p unique_loop_step
    by (rule Cons.IH) (rule unique_step_distinct [OF Cons.prems])
qed

lemma unique_loop_subset:
  "distinct (map fst uf) \<Longrightarrow> set (unique_loop found uf) \<subseteq> set found \<union> set uf"
proof (induction found arbitrary: uf)
  case Nil
  then show ?case by simp
next
  case (Cons p found)
  obtain u c where p: "p = (u, c)" by (cases p)
  have "set (unique_loop found (unique_step uf u c)) \<subseteq> set found \<union> set (unique_step uf u c)"
    by (rule Cons.IH) (rule unique_step_distinct [OF Cons.prems])
  with unique_step_subset [OF Cons.prems, of u c] show ?case
    unfolding p unique_loop_step by auto
qed

lemma unique_loop_covers:
  "distinct (map fst uf) \<Longrightarrow> (k, v) \<in> set found \<union> set uf \<Longrightarrow>
   \<exists>v'. v \<le> v' \<and> (k, v') \<in> set (unique_loop found uf)"
proof (induction found arbitrary: uf v)
  case Nil
  then show ?case by auto
next
  case (Cons p found)
  obtain u c where p: "p = (u, c)" by (cases p)
  have d': "distinct (map fst (unique_step uf u c))"
    by (rule unique_step_distinct [OF Cons.prems(1)])
  show ?case
  proof (cases "(k, v) \<in> set found")
    case True
    then show ?thesis unfolding p unique_loop_step
      by (intro Cons.IH [OF d']) simp
  next
    case False
    with Cons.prems(2) p have "(k, v) \<in> insert (u, c) (set uf)" by auto
    from unique_step_covers [OF Cons.prems(1) this]
    obtain v' where v': "v \<le> v'" "(k, v') \<in> set (unique_step uf u c)" by blast
    from Cons.IH [OF d', of v'] v'(2)
    obtain v'' where "v' \<le> v''" "(k, v'') \<in> set (unique_loop found (unique_step uf u c))"
      by auto
    with v'(1) show ?thesis unfolding p unique_loop_step by (intro exI [of _ v'']) auto
  qed
qed

lemma unique_loop_max:
  assumes "(k, c) \<in> set (unique_loop found [])" "(k, c') \<in> set found"
  shows "c' \<le> c"
proof -
  from unique_loop_covers [of "[]" k c' found] assms(2)
  obtain v where v: "c' \<le> v" "(k, v) \<in> set (unique_loop found [])" by auto
  have "distinct (map fst (unique_loop found []))" by (rule unique_loop_distinct) simp
  from this v(2) assms(1) have "v = c" by (rule eq_key_imp_eq_value)
  with v(1) show ?thesis by simp
qed

lemma sorted_reverse_set: "set (sorted_reverse key xs) = set xs"
  by (simp add: sorted_reverse_def)

lemma sorted_reverse_distinct_keys:
  "distinct (map fst (sorted_reverse key xs)) = distinct (map fst xs)"
  unfolding sorted_reverse_def distinct_map by simp

lemma sorted_reverse_descending:
  fixes key :: "'a \<Rightarrow> 'b::linordered_idom"
  shows "sorted_wrt (\<lambda>x y. key y \<le> key x) (sorted_reverse key xs)"
proof -
  have "sorted (map (\<lambda>x. - key x) (sort_key (\<lambda>x. - key x) xs))"
    by (rule sorted_sort_key)
  then show ?thesis by (simp add: sorted_reverse_def sorted_map)
qed

lemma sorted_reverse_stable:
  fixes key :: "'a \<Rightarrow> 'b::linordered_idom"
  shows "filter (\<lambda>x. key x = k) (sorted_reverse key xs) = filter (\<lambda>x. key x = k) xs"
proof -
  have "filter (\<lambda>x. - key x = - k) (sort_key (\<lambda>x. - key x) xs) = filter (\<lambda>x. - key x = - k) xs"
    by (rule sort_key_stable)
  then show ?thesis by (simp add: sorted_reverse_def)
qed

text \<open>
  Claim C7. Every pair \<open>find_usernames\<close> returns has a confidence of at least
  \<open>min_confidence\<close> and between 0 and 1; its member is on the roster, and its
  confidence is the similarity of the member to some extracted token and the largest over
  all extracted tokens; every member that some token matches with at least
  \<open>min_confidence\<close> appears; no member appears twice; and the list is in
  descending order of confidence.
\<close>

theorem find_usernames_contract:
  "(\<forall>(u, c) \<in> set (find_usernames findall lower text members_list min_confidence).
      min_confidence \<le> c \<and> 0 \<le> c \<and> c \<le> 1 \<and> u \<in> set members_list \<and>
      (\<exists>tok \<in> set (findall text). c = calculate_similarity (lower tok) (lower u)) \<and>
      (\<forall>tok \<in> set (findall text). calculate_similarity (lower tok) (lower u) \<le> c)) \<and>
   (\<forall>member \<in> set members_list.
      (\<exists>tok \<in> set (findall text).
         min_confidence \<le> calculate_similarity (lower tok) (lower member)) \<longrightarrow>
      member \<in> fst ` set (find_usernames findall lower text members_list min_confidence)) \<and>
   distinct (map fst (find_usernames findall lower text members_list min_confidence)) \<and>
   sorted_wrt (\<lambda>x y. snd y \<le> snd x)
     (find_usernames findall lower text members_list min_confidence)"
proof -
  define out where "out = find_usernames findall lower text members_list min_confidence"
  let ?found = "match_tokens lower min_confidence members_list (findall text) []"
  have out: "out = sorted_reverse snd (unique_loop ?found [])"
    by (simp add: out_def find_usernames_def Let_def)
  have found: "set ?found = {(m, calculate_similarity (lower u) (lower m)) | m u.
        m \<in> set members_list \<and> u \<in> set (findall text) \<and>
        min_confidence \<le> calculate_similarity (lower u) (lower m)}"
    by (simp add: match_tokens_set)
  have sub: "set out \<subseteq> set ?found"
    using unique_loop_subset [of "[]" ?found] by (simp add: out sorted_reverse_set)
  have "min_confidence \<le> c \<and> 0 \<le> c \<and> c \<le> 1 \<and> u \<in> set members_list \<and>
            (\<exists>tok \<in> set (findall text). c = calculate_similarity (lower tok) (lower u)) \<and>
            (\<forall>tok \<in> set (findall text). calculate_similarity (lower tok) (lower u) \<le> c)"
    if uc: "(u, c) \<in> set out" for u c
  proof -
    from uc sub have "(u, c) \<in> set ?found" by blast
    then obtain tok where tok: "u \<in> set members_list" "tok \<in> set (findall text)"
        "c = calculate_similarity (lower tok) (lower u)" "min_confidence \<le> c"
      unfolding found by auto
    have "calculate_similarity (lower tok') (lower u) \<le> c" if t': "tok' \<in> set (findall text)" for tok'
    proof (cases "min_confidence \<le> calculate_similarity (lower tok') (lower u)")
      case True
      with t' tok(1) have "(u, calculate_similarity (lower tok') (lower u)) \<in> set ?found"
        unfolding found by auto
      moreover from uc have "(u, c) \<in> set (unique_loop ?found [])"
        by (simp add: out sorted_reverse_set)
      ultimately show ?thesis by (intro unique_loop_max [of u c ?found])
    next
      case False
      with tok(4) show ?thesis by simp
    qed
    with tok calculate_similarity_range [of "lower tok" "lower u"] show ?thesis by auto
  qed
  moreover have "member \<in> fst ` set out"
    if m: "member \<in> set members_list"
      and t: "\<exists>tok \<in> set (findall text).
        min_confidence \<le> calculate_similarity (lower tok) (lower member)" for member
  proof -
    from t obtain tok where tok: "tok \<in> set (findall text)"
        "min_confidence \<le> calculate_similarity (lower tok) (lower member)" by blast
    with m have "(member, calculate_similarity (lower tok) (lower member)) \<in> set ?found"
      unfolding found by blast
    then have "(member, calculate_similarity (lower tok) (lower member)) \<in> set ?found \<union> set []"
      by simp
    from unique_loop_covers [OF _ this]
    obtain v where "(member, v) \<in> set (unique_loop ?found [])" by auto
    then have "(member, v) \<in> set out" by (simp add: out sorted_reverse_set)
    then show ?thesis by force
  qed
  moreover have "distinct (map fst out)"
    unfolding out sorted_reverse_distinct_keys by (rule unique_loop_distinct) simp
  moreover have "sorted_wrt (\<lambda>x y. snd y \<le> snd x) out"
    unfolding out by (rule sorted_reverse_descending)
  ultimately show ?thesis unfolding out_def by auto
qed

text \<open>
  The claim for two tokens and two members, one matched exactly and one at distance one.
\<close>

theorem find_usernames_contract_witness:
  "find_usernames (\<lambda>t. [''alice'', ''bod'']) id ''@alice likes this bod: hi''
     [''alice'', ''bob''] (6 / 10) = [(''alice'', 1), (''bob'', 2 / 3)] \<and>
   distinct (map fst (find_usernames (\<lambda>t. [''alice'', ''bod'']) id ''@alice likes this bod: hi''
     [''alice'', ''bob''] (6 / 10))) \<and>
   sorted_wrt (\<lambda>x y. snd y \<le> snd x)
     (find_usernames (\<lambda>t. [''alice'', ''bod'']) id ''@alice likes this bod: hi''
        [''alice'', ''bob''] (6 / 10))"
proof -
  have "find_usernames (\<lambda>t. [''alice'', ''bod'']) id ''@alice likes this bod: hi''
     [''alice'', ''bob''] (6 / 10) = [(''alice'', 1), (''bob'', 2 / 3)]"
    by code_simp
  with find_usernames_contract [of "\<lambda>t. [''alice'', ''bod'']" id "''@alice likes this bod: hi''"
      "[''alice'', ''bob'']" "6 / 10"]
  show ?thesis by blast
qed

text \<open>
  Claim C10. The empty string scores 1 against itself and exactly 0.9 against every
  non-empty string, since the empty string is inside every string. 0.9 is above the
  default threshold 0.8, so a token that is empty once lowered is matched with every
  roster member whose lowered name is not empty: the inner loop adds the pair to
  \<open>found\<close>.
\<close>

theorem empty_token_similarity:
  "calculate_similarity [] ([] :: 'a list) = 1 \<and>
   (m \<noteq> [] \<longrightarrow>
      calculate_similarity [] (m :: 'a list) = 9 / 10 \<and>
      default_min_confidence \<le> calculate_similarity [] m) \<and>
   (lower username = [] \<and> member \<in> set members_list \<and> lower member \<noteq> [] \<longrightarrow>
      (member, 9 / 10) \<in>
        set (match_members lower username default_min_confidence members_list found))"
proof (intro conjI impI)
  show "calculate_similarity [] ([] :: 'a list) = 1"
    by (simp add: calculate_similarity_def)
next
  assume "m \<noteq> []"
  then show "calculate_similarity [] m = 9 / 10"
    by (rule calculate_similarity_empty)
next
  assume "m \<noteq> []"
  then show "default_min_confidence \<le> calculate_similarity [] m"
    by (simp add: calculate_similarity_empty default_min_confidence_def)
next
  assume a: "lower username = [] \<and> member \<in> set members_list \<and> lower member \<noteq> []"
  then have "calculate_similarity (lower username) (lower member) = 9 / 10"
    by (simp add: calculate_similarity_empty)
  with a show "(member, 9 / 10) \<in>
      set (match_members lower username default_min_confidence members_list found)"
    unfolding match_members_eq by (force simp: default_min_confidence_def)
qed

text \<open>The claim for the member alice on a roster of two.\<close>

theorem empty_token_similarity_witness:
  "calculate_similarity [] ''alice'' = 9 / 10 \<and>
   default_min_confidence \<le> calculate_similarity [] ''alice'' \<and>
   (''alice'', 9 / 10) \<in> set (match_members id [] default_min_confidence [''alice'', ''bob''] [])"
proof -
  have "''alice'' \<noteq> []" by simp
  moreover have "id [] = [] \<and> ''alice'' \<in> set [''alice'', ''bob''] \<and> id ''alice'' \<noteq> []" by simp
  ultimately show ?thesis
    using empty_token_similarity [of "''alice''" id "[]" "''alice''" "[''alice'', ''bob'']" "[]"]
    by blast
qed

section \<open>Properties of the scoring engine\<close>

subsection \<open>Closed forms of the loops\<close>



lemma daily_total_loop_eq:
  "daily_total_loop username date data daily_total =
     (if \<exists>row \<in> set data. row_username row = username \<and> split_first (row_check_time row) = None
      then Inl IndexError
      else Inr (daily_total + sum_list (map row_matsuni
             (filter (\<lambda>row. row_username row = username \<and>
                             split_first (row_check_time row) = Some date) data))))"
proof (induction data arbitrary: daily_total)
  case Nil
  then show ?case by simp
next
  case (Cons row data)
  show ?case
  proof (cases "row_username row = username")
    case True
    then show ?thesis
      by (cases "split_first (row_check_time row)") (auto simp add: Cons.IH)
  next
    case False
    then show ?thesis by (simp add: Cons.IH)
  qed
qed

lemma check_daily_limit_eq:
  "check_daily_limit rules db username date new_matsuni =
     (if unreadable db username then Inl IndexError
      else Inr (min new_matsuni (max 0 (max_per_day rules - ledger_total db username date))))"
  by (simp add: check_daily_limit_def daily_total_loop_eq unreadable_def ledger_total_def)

lemma filter_absent_key: "u \<notin> set (map f xs) \<Longrightarrow> filter (\<lambda>a. f a = u) xs = []"
  by (induction xs) auto

lemma clamp_min: "(if min m x < m then min m x else m) = min (m::int) x"
  by (simp add: min_def)

lemma score_loop_eq:
  "score_loop rules db post_name post_date excluded activities results =
     (if \<exists>a \<in> set activities. get_username a \<notin> excluded \<and> unreadable db (get_username a)
      then Inl IndexError
      else Inr (results @ map (score_one rules db post_name post_date)
                  (filter (\<lambda>a. get_username a \<notin> excluded) activities)))"
proof (induction activities arbitrary: results)
  case Nil
  then show ?case by simp
next
  case (Cons a activities)
  have u: "(case a_username a of None \<Rightarrow> [] | Some u \<Rightarrow> u) = get_username a"
    by (simp add: get_username_def)
  have l: "(case a_has_like a of None \<Rightarrow> False | Some b \<Rightarrow> b) = get_has_like a"
    by (simp add: get_has_like_def)
  have c: "(case a_has_comment a of None \<Rightarrow> False | Some b \<Rightarrow> b) = get_has_comment a"
    by (simp add: get_has_comment_def)
  show ?case
  proof (cases "get_username a \<in> excluded")
    case True
    then show ?thesis by (simp add: u Cons.IH)
  next
    case ne: False
    show ?thesis
    proof (cases "unreadable db (get_username a)")
      case True
      with ne show ?thesis by (simp add: u l c check_daily_limit_eq Let_def)
    next
      case False
      have row: "\<lparr>r_username = get_username a, r_has_like = get_has_like a,
            r_has_comment = get_has_comment a,
            r_matsuni = (let m = raw_points rules (get_has_like a) (get_has_comment a);
                             dl = min m (max 0 (max_per_day rules
                                   - ledger_total db (get_username a) post_date))
                         in if dl < m then dl else m),
            r_post_name = post_name, r_post_date = post_date\<rparr>
          = score_one rules db post_name post_date a"
        by (simp only: score_one_def Let_def clamp_min)
      from ne False show ?thesis
        unfolding score_loop.simps u l c Let_def check_daily_limit_eq
        using row by (simp add: Cons.IH raw_points_def Let_def)
    qed
  qed
qed

text \<open>
  The function as a whole: it raises when a user it has to score has a blank check time in
  the ledger, and otherwise returns one row per record that is not excluded.
\<close>

lemma calculate_for_post_eq:
  "calculate_for_post lower rules db post_data activities =
     (if \<exists>a \<in> set activities. get_username a \<notin> excluded_users lower db (get_name post_data) \<and>
            unreadable db (get_username a)
      then Inl IndexError
      else Inr (map (score_one rules db (get_name post_data) (get_date post_data))
                  (filter (\<lambda>a. get_username a \<notin> excluded_users lower db (get_name post_data))
                     activities)))"
  unfolding calculate_for_post_def Let_def score_loop_eq
  by (simp add: excluded_users_def get_name_def get_date_def)

subsection \<open>Output rows\<close>

lemma unreadable_readable: "ledger_readable db \<Longrightarrow> \<not> unreadable db u"
  by (auto simp: ledger_readable_def unreadable_def)

text \<open>
  Claim C3. With the default rules, every activity record that is not excluded is emitted
  with the matsuni \<open>min raw (max 0 (2 - prior))\<close>, where \<open>raw\<close> is 2 with a
  comment (with or without a like), 1 with a like only and 0 with neither, and
  \<open>prior\<close> is the ledger total of the user on the date of the post. The function
  returns whenever no check time of the ledger is blank.
\<close>

theorem calculate_for_post_matsuni:
  "(\<forall>out. calculate_for_post lower default_rules db post_data activities = Inr out \<longrightarrow>
      map (\<lambda>r. (r_username r, r_matsuni r)) out =
        map (\<lambda>a. (get_username a,
                   min (if get_has_comment a then 2 else if get_has_like a then 1 else 0)
                       (max 0 (2 - ledger_total db (get_username a) (get_date post_data)))))
          (filter (\<lambda>a. get_username a \<notin> excluded_users lower db (get_name post_data))
             activities)) \<and>
   (ledger_readable db \<longrightarrow>
      (\<exists>out. calculate_for_post lower default_rules db post_data activities = Inr out))"
proof (intro conjI allI impI)
  fix out
  assume "calculate_for_post lower default_rules db post_data activities = Inr out"
  then have "out = map (score_one default_rules db (get_name post_data) (get_date post_data))
      (filter (\<lambda>a. get_username a \<notin> excluded_users lower db (get_name post_data)) activities)"
    by (simp add: calculate_for_post_eq split: if_splits)
  then show "map (\<lambda>r. (r_username r, r_matsuni r)) out =
        map (\<lambda>a. (get_username a,
                   min (if get_has_comment a then 2 else if get_has_like a then 1 else 0)
                       (max 0 (2 - ledger_total db (get_username a) (get_date post_data)))))
          (filter (\<lambda>a. get_username a \<notin> excluded_users lower db (get_name post_data))
             activities)"
    by (simp add: score_one_def raw_points_def default_rules_def comp_def)
next
  assume "ledger_readable db"
  then show "\<exists>out. calculate_for_post lower default_rules db post_data activities = Inr out"
    by (simp add: calculate_for_post_eq unreadable_readable)
qed

text \<open>
  The claim on the scenarios of the specification: carol comments with no prior entry, dan
  likes with two matsuni already on the day.
\<close>

theorem calculate_for_post_matsuni_witness:
  "calculate_for_post id default_rules cap_db (session_post ''vibro'' ''2024-01-01'' ''101500'')
     cap_activities =
   Inr [\<lparr>r_username = ''carol'', r_has_like = False, r_has_comment = True, r_matsuni = 2,
          r_post_name = ''vibro'', r_post_date = ''2024-01-01''\<rparr>,
        \<lparr>r_username = ''dan'', r_has_like = True, r_has_comment = False, r_matsuni = 0,
          r_post_name = ''vibro'', r_post_date = ''2024-01-01''\<rparr>,
        \<lparr>r_username = ''erin'', r_has_like = False, r_has_comment = False, r_matsuni = 0,
          r_post_name = ''vibro'', r_post_date = ''2024-01-01''\<rparr>] \<and>
   ledger_readable cap_db \<and>
   [(''carol'', 2), (''dan'', 0), (''erin'', 0)] =
     map (\<lambda>a. (get_username a,
                min (if get_has_comment a then 2 else if get_has_like a then 1 else 0)
                    (max 0 (2 - ledger_total cap_db (get_username a)
                       (get_date (session_post ''vibro'' ''2024-01-01'' ''101500''))))))
       (filter (\<lambda>a. get_username a \<notin> excluded_users id cap_db
                  (get_name (session_post ''vibro'' ''2024-01-01'' ''101500'')))
          cap_activities)"
proof -
  let ?post = "session_post ''vibro'' ''2024-01-01'' ''101500''"
  let ?out = "[\<lparr>r_username = ''carol'', r_has_like = False, r_has_comment = True, r_matsuni = 2,
          r_post_name = ''vibro'', r_post_date = ''2024-01-01''\<rparr>,
        \<lparr>r_username = ''dan'', r_has_like = True, r_has_comment = False, r_matsuni = 0,
          r_post_name = ''vibro'', r_post_date = ''2024-01-01''\<rparr>,
        \<lparr>r_username = ''erin'', r_has_like = False, r_has_comment = False, r_matsuni = 0,
          r_post_name = ''vibro'', r_post_date = ''2024-01-01''\<rparr>]"
  have ev: "calculate_for_post id default_rules cap_db ?post cap_activities = Inr ?out"
    by code_simp
  have rd: "ledger_readable cap_db"
    by code_simp
  from calculate_for_post_matsuni [of id cap_db ?post cap_activities] ev
  have "map (\<lambda>r. (r_username r, r_matsuni r)) ?out =
      map (\<lambda>a. (get_username a,
                min (if get_has_comment a then 2 else if get_has_like a then 1 else 0)
                    (max 0 (2 - ledger_total cap_db (get_username a) (get_date ?post)))))
       (filter (\<lambda>a. get_username a \<notin> excluded_users id cap_db (get_name ?post)) cap_activities)"
    by blast
  then have "[(''carol'', 2), (''dan'', 0), (''erin'', 0)] =
      map (\<lambda>a. (get_username a,
                min (if get_has_comment a then 2 else if get_has_like a then 1 else 0)
                    (max 0 (2 - ledger_total cap_db (get_username a) (get_date ?post)))))
       (filter (\<lambda>a. get_username a \<notin> excluded_users id cap_db (get_name ?post)) cap_activities)"
    by simp
  with ev rd show ?thesis by blast
qed



text \<open>
  Claim C2 says that an active exclusion with the post name \<open>all\<close> excludes the user
  from every post, and \<open>bot/main.py\<close> offers \<open>all\<close> to the operator for that
  purpose. \<open>get_exclusions\<close> compares the post name of the row with the name of the
  post and nothing else: for the post vibro it returns no row, and alice is scored.
\<close>

theorem wildcard_exclusion_not_applied:
  "get_exclusions id wildcard_db ''vibro'' = [] \<and>
   calculate_for_post id default_rules wildcard_db (session_post ''vibro'' ''2024-01-01'' ''101500'')
     [session_activity ''alice'' False True] =
   Inr [\<lparr>r_username = ''alice'', r_has_like = False, r_has_comment = True, r_matsuni = 2,
          r_post_name = ''vibro'', r_post_date = ''2024-01-01''\<rparr>]"
  by code_simp




subsection \<open>The daily cap across posts\<close>

lemma save_rows_eq:
  "pd_id post_data = Some post_id \<Longrightarrow>
   save_rows clock post_data activities rows =
     Inr (rows @ map (\<lambda>(i, a). ledger_row post_id a (clock i))
                   (zip [length rows..<length rows + length activities] activities))"
proof (induction activities arbitrary: rows)
  case Nil
  then show ?case by simp
next
  case (Cons a activities)
  have "[length rows..<length rows + length (a # activities)] =
      length rows # [Suc (length rows)..<Suc (length rows) + length activities]"
    by (subst upt_rec) simp
  with Cons show ?case by (simp add: ledger_row_def)
qed

lemma save_activity_ledger:
  "\<exists>rows. ws_activity (snd (save_activity clock post_data activities db)) = ws_activity db @ rows \<and>
     length rows \<le> length activities \<and>
     (\<forall>j < length rows. row_username (rows ! j) = r_username (activities ! j) \<and>
        row_matsuni (rows ! j) = r_matsuni (activities ! j) \<and>
        row_check_time (rows ! j) = clock j)"
proof (cases "pd_id post_data")
  case None
  show ?thesis
  proof (cases activities)
    case Nil
    with None have "ws_activity (snd (save_activity clock post_data activities db)) =
        ws_activity db @ []"
      by (simp add: save_activity_def split: option.split)
    then show ?thesis by (intro exI [of _ "[]"]) simp
  next
    case (Cons a list)
    with None have "ws_activity (snd (save_activity clock post_data activities db)) =
        ws_activity db @ []"
      by (simp add: save_activity_def)
    then show ?thesis by (intro exI [of _ "[]"]) simp
  qed
next
  case (Some post_id)
  let ?rows = "map (\<lambda>(i, a). ledger_row post_id a (clock i)) (zip [0..<length activities] activities)"
  have sr: "save_rows clock post_data activities [] = Inr ?rows"
    using save_rows_eq [OF Some, of clock activities "[]"] by simp
  have "ws_activity (snd (save_activity clock post_data activities db)) = ws_activity db @ ?rows"
    unfolding save_activity_def sr
    by (cases "pd_name post_data"; cases "pd_date post_data") (simp_all add: Some Let_def)
  moreover have "length ?rows \<le> length activities" by simp
  moreover have "\<forall>j < length ?rows. row_username (?rows ! j) = r_username (activities ! j) \<and>
        row_matsuni (?rows ! j) = r_matsuni (activities ! j) \<and>
        row_check_time (?rows ! j) = clock j"
    by (simp add: ledger_row_def)
  ultimately show ?thesis by blast
qed

lemma ledger_total_append:
  "ws_activity db' = ws_activity db @ rows \<Longrightarrow>
   ledger_total db' u d = ledger_total db u d +
     sum_list (map row_matsuni
       (filter (\<lambda>row. row_username row = u \<and> split_first (row_check_time row) = Some d) rows))"
  by (simp add: ledger_total_def)

lemma single_key_sum:
  fixes g :: "'a \<Rightarrow> int"
  assumes "distinct (map f xs)" "\<forall>x \<in> set xs. f x = u \<and> P x \<longrightarrow> g x \<le> B" "0 \<le> B"
  shows "sum_list (map g (filter (\<lambda>x. f x = u \<and> P x) xs)) \<le> B"
  using assms
proof (induction xs)
  case Nil
  then show ?case by simp
next
  case (Cons x xs)
  show ?case
  proof (cases "f x = u \<and> P x")
    case True
    with Cons.prems(1) have "u \<notin> set (map f xs)" by auto
    then have "filter (\<lambda>a. f a = u) xs = []" by (rule filter_absent_key)
    then have "filter (\<lambda>x. f x = u \<and> P x) xs = []"
      by (auto simp: filter_empty_conv)
    with True Cons.prems(2) show ?thesis by simp
  next
    case False
    with Cons show ?thesis by auto
  qed
qed

lemma score_one_bounded:
  "r_matsuni (score_one rules db post_name post_date a)
     \<le> max 0 (max_per_day rules - ledger_total db (r_username (score_one rules db post_name post_date a)) post_date)"
  by (simp add: score_one_def)

text \<open>
  Scoring and committing a session of this kind lifts no total above the cap it was not
  already above.
\<close>

lemma process_post_step:
  assumes sess: "scored_on_post_date (clock, post_data, activities)"
  shows "ledger_total (process_post lower rules clock post_data activities db) u d
           \<le> max (max_per_day rules) (ledger_total db u d)"
proof (cases "calculate_for_post lower rules db post_data activities")
  case (Inl e)
  then show ?thesis by (simp add: process_post_def)
next
  case (Inr results)
  let ?ex = "excluded_users lower db (get_name post_data)"
  let ?kept = "filter (\<lambda>a. get_username a \<notin> ?ex) activities"
  let ?db' = "snd (save_activity clock post_data results db)"
  from Inr have res: "results = map (score_one rules db (get_name post_data) (get_date post_data)) ?kept"
    by (simp add: calculate_for_post_eq split: if_splits)
  have names: "map r_username results = map get_username ?kept"
    unfolding res by (simp add: score_one_def comp_def)
  from sess have "distinct (map get_username activities)"
    by (simp add: scored_on_post_date_def)
  then have "distinct (map get_username ?kept)"
    by (simp add: distinct_map_filter)
  then have dres: "distinct (map r_username results)" by (simp only: names)
  have len: "length results \<le> length activities" unfolding res by simp
  from save_activity_ledger [of clock post_data results db]
  obtain rows where rows: "ws_activity ?db' = ws_activity db @ rows"
    and lr: "length rows \<le> length results"
    and nth: "\<forall>j < length rows. row_username (rows ! j) = r_username (results ! j) \<and>
        row_matsuni (rows ! j) = r_matsuni (results ! j) \<and> row_check_time (rows ! j) = clock j"
    by blast
  have "map row_username rows = take (length rows) (map r_username results)"
    using lr nth by (simp add: list_eq_iff_nth_eq)
  with dres have drows: "distinct (map row_username rows)"
    by (simp add: distinct_take)
  let ?B = "max 0 (max_per_day rules - ledger_total db u d)"
  have bound: "\<forall>row \<in> set rows. row_username row = u \<and>
      split_first (row_check_time row) = Some d \<longrightarrow> row_matsuni row \<le> ?B"
  proof (intro ballI impI)
    fix row assume "row \<in> set rows"
      and ud: "row_username row = u \<and> split_first (row_check_time row) = Some d"
    then obtain j where j: "j < length rows" "row = rows ! j" by (auto simp: in_set_conv_nth)
    with lr len have jl: "j < length results" "j < length activities" by simp_all
    from sess jl have "split_first (clock j) = Some (get_date post_data)"
      by (simp add: scored_on_post_date_def)
    with nth j ud have d: "d = get_date post_data" by simp
    from jl have "results ! j \<in> set results" by simp
    then obtain a where "results ! j = score_one rules db (get_name post_data) (get_date post_data) a"
      unfolding res by auto
    with score_one_bounded [of rules db "get_name post_data" "get_date post_data" a]
    have "r_matsuni (results ! j)
        \<le> max 0 (max_per_day rules - ledger_total db (r_username (results ! j)) (get_date post_data))"
      by simp
    with nth j ud d show "row_matsuni row \<le> ?B" by simp
  qed
  have "sum_list (map row_matsuni (filter (\<lambda>row. row_username row = u \<and>
      split_first (row_check_time row) = Some d) rows)) \<le> ?B"
    by (rule single_key_sum [OF drows bound]) simp
  with ledger_total_append [OF rows, of u d]
  have "ledger_total ?db' u d \<le> max (max_per_day rules) (ledger_total db u d)" by simp
  with Inr show ?thesis by (simp add: process_post_def)
qed

text \<open>
  The daily cap holds on every date, for any sequence of sessions in any order, as long as
  every session stamps its rows with the date of its post and names no user twice.
\<close>

lemma daily_cap_kept_when_scored_on_post_date:
  assumes "\<forall>session \<in> set sessions. scored_on_post_date session" "within_cap rules db"
  shows "within_cap rules (process_posts lower rules sessions db)"
  using assms
proof (induction sessions arbitrary: db)
  case Nil
  then show ?case by simp
next
  case (Cons session sessions)
  obtain clock post_data activities where s: "session = (clock, post_data, activities)"
    by (cases session)
  from Cons.prems(1) s have "scored_on_post_date (clock, post_data, activities)" by simp
  from process_post_step [OF this, of lower rules db] Cons.prems(2)
  have "within_cap rules (process_post lower rules clock post_data activities db)"
    unfolding within_cap_def by (meson max.boundedE order_trans max.cobounded1 max.bounded_iff order_refl)
  with Cons.IH [of "process_post lower rules clock post_data activities db"] Cons.prems(1)
  show ?case by (simp add: s)
qed

text \<open>
  Claim C1 says that the ledger never holds more than the daily cap for a user on a date.
  The ledger dates an entry by its check time, while the daily-limit loop looks for the
  date of the post. Two posts dated 2024-01-01 and scored on 2024-01-02 each find no
  entry of alice under 2024-01-01 and award the full two matsuni: the ledger, within the
  cap before, then holds four matsuni of alice on 2024-01-02.
\<close>

theorem daily_cap_exceeded_when_scored_later:
  "within_cap default_rules new_db \<and>
   map (\<lambda>row. (row_username row, row_matsuni row, row_check_time row))
     (ws_activity (process_posts id default_rules late_sessions new_db)) =
     [(''alice'', 2, ''2024-01-02 18:00:00''), (''alice'', 2, ''2024-01-02 18:30:00'')] \<and>
   ledger_total (process_posts id default_rules late_sessions new_db) ''alice'' ''2024-01-02'' = 4 \<and>
   max_per_day default_rules = 2 \<and>
   \<not> within_cap default_rules (process_posts id default_rules late_sessions new_db)"
proof -
  have before: "within_cap default_rules new_db"
    by (simp add: within_cap_def ledger_total_def new_db_def default_rules_def)
  have ledger: "map (\<lambda>row. (row_username row, row_matsuni row, row_check_time row))
     (ws_activity (process_posts id default_rules late_sessions new_db)) =
     [(''alice'', 2, ''2024-01-02 18:00:00''), (''alice'', 2, ''2024-01-02 18:30:00'')]"
    by code_simp
  have total: "ledger_total (process_posts id default_rules late_sessions new_db)
      ''alice'' ''2024-01-02'' = 4"
    by code_simp
  have cap: "max_per_day default_rules = 2"
    by (simp add: default_rules_def)
  from total cap have "\<not> ledger_total (process_posts id default_rules late_sessions new_db)
      ''alice'' ''2024-01-02'' \<le> max_per_day default_rules"
    by simp
  then have "\<not> within_cap default_rules (process_posts id default_rules late_sessions new_db)"
    unfolding within_cap_def by blast
  with before ledger total cap show ?thesis by blast
qed

text \<open>
  Within one call the ledger is not updated between records, so a user named twice is
  awarded twice.
\<close>

lemma duplicate_member_scored_twice:
  "calculate_for_post id default_rules new_db (session_post ''vibro'' ''2024-01-01'' ''180000'')
     [session_activity ''alice'' False True, session_activity ''alice'' False True] =
   Inr [\<lparr>r_username = ''alice'', r_has_like = False, r_has_comment = True, r_matsuni = 2,
          r_post_name = ''vibro'', r_post_date = ''2024-01-01''\<rparr>,
        \<lparr>r_username = ''alice'', r_has_like = False, r_has_comment = True, r_matsuni = 2,
          r_post_name = ''vibro'', r_post_date = ''2024-01-01''\<rparr>]"
  by code_simp

section \<open>Properties of the period aggregator\<close>

subsection \<open>The loops\<close>

lemma first_seen_snoc:
  "first_seen (xs @ [x]) = (if x \<in> set xs then first_seen xs else first_seen xs @ [x])"
  by (simp add: first_seen_def)

lemma first_seen_set: "set (first_seen xs) = set xs"
  by (simp add: first_seen_def)

lemma first_seen_distinct: "distinct (first_seen xs)"
  by (simp add: first_seen_def)

lemma period_loop_eq:
  "period_loop start_date end_date data activities =
     (if \<exists>row \<in> set data. split_first (row_check_time row) = None then Inl IndexError
      else Inr (activities @ filter (in_period start_date end_date) data))"
proof (induction data arbitrary: activities)
  case Nil
  then show ?case by simp
next
  case (Cons row data)
  show ?case
  proof (cases "split_first (row_check_time row)")
    case None
    then show ?thesis by simp
  next
    case (Some activity_date)
    then have "in_period start_date end_date row =
        (start_date \<le> activity_date \<and> activity_date \<le> end_date)"
      by (simp add: in_period_def)
    with Some show ?thesis by (simp add: Cons.IH)
  qed
qed

lemma members_dict_fold:
  "fold (\<lambda>row members. members(m_username row \<mapsto> row)) rows m username = None \<longleftrightarrow>
     m username = None \<and> username \<notin> m_username ` set rows"
  by (induction rows arbitrary: m) auto

lemma members_dict_None:
  "members_dict rows username = None \<longleftrightarrow> username \<notin> m_username ` set rows"
  by (simp add: members_dict_def members_dict_fold)

lemma group_loop_Cons:
  "group_loop members (activity # activities) results =
     (if members (row_username activity) = None then group_loop members activities results
      else case split_first (row_check_time activity) of
             None \<Rightarrow> Inl IndexError
           | Some activity_date \<Rightarrow>
               group_loop members activities (group_step activity activity_date results))"
  by (simp add: group_step_def Let_def split: option.split)

lemma group_loop_append:
  "group_loop members (xs @ ys) results =
     (case group_loop members xs results of
        Inl e \<Rightarrow> Inl e
      | Inr results' \<Rightarrow> group_loop members ys results')"
proof (induction xs arbitrary: results)
  case Nil
  then show ?case by simp
next
  case (Cons a xs)
  show ?case
    unfolding append_Cons group_loop_Cons
    by (simp add: Cons.IH split: option.split)
qed

lemma dict_set_map_of: "map_of (dict_set d k v) = (map_of d)(k \<mapsto> v)"
proof (induction d)
  case Nil
  then show ?case by simp
next
  case (Cons p d)
  obtain k' v' where p: "p = (k', v')" by (cases p)
  show ?case by (auto simp: p Cons.IH)
qed

lemma group_loop_single:
  "group_loop members [activity] results =
     (if members (row_username activity) = None then Inr results
      else case split_first (row_check_time activity) of
             None \<Rightarrow> Inl IndexError
           | Some activity_date \<Rightarrow> Inr (group_step activity activity_date results))"
  unfolding group_loop_Cons by (simp split: option.split)

lemma group_step_keys:
  "map fst (group_step activity d results) =
     (if row_username activity \<in> set (map fst results) then map fst results
      else map fst results @ [row_username activity])"
  by (simp add: group_step_def Let_def dict_set_keys)

lemma group_step_other:
  "u \<noteq> row_username activity \<Longrightarrow> map_of (group_step activity d results) u = map_of results u"
  by (simp add: group_step_def Let_def dict_set_map_of)

lemma group_step_total:
  "\<exists>g. map_of (group_step activity d results) (row_username activity) = Some g \<and>
       g_total_matsuni g =
         (case map_of results (row_username activity) of None \<Rightarrow> 0
          | Some g0 \<Rightarrow> g_total_matsuni g0) + row_matsuni activity"
  by (simp add: group_step_def Let_def dict_set_map_of split: option.split)

lemma grouped_step:
  assumes g: "grouped members activities results" and m: "members (row_username activity) \<noteq> None"
  shows "grouped members (activities @ [activity]) (group_step activity d results)"
proof -
  let ?mem = "\<lambda>a. members (row_username a) \<noteq> None"
  let ?u = "row_username activity"
  have keys: "map fst results = first_seen (map row_username (filter ?mem activities))"
    using g by (simp add: grouped_def)
  have tot: "\<And>u g. map_of results u = Some g \<Longrightarrow>
      g_total_matsuni g = sum_list (map row_matsuni (filter (\<lambda>a. row_username a = u)
             (filter ?mem activities)))"
    using g by (simp add: grouped_def)
  have set_keys: "set (map fst results) = set (map row_username (filter ?mem activities))"
    unfolding keys by (rule first_seen_set)
  have k': "map fst (group_step activity d results) =
      first_seen (map row_username (filter ?mem (activities @ [activity])))"
    using m unfolding group_step_keys set_keys
    by (simp add: first_seen_snoc keys)
  have t': "g_total_matsuni g' = sum_list (map row_matsuni (filter (\<lambda>a. row_username a = u)
             (filter ?mem (activities @ [activity]))))"
    if look: "map_of (group_step activity d results) u = Some g'" for u g'
  proof (cases "u = ?u")
    case False
    with look have "map_of results u = Some g'" by (simp add: group_step_other)
    from tot [OF this] False m show ?thesis by auto
  next
    case True
    from group_step_total [of activity d results] look True
    have g': "g_total_matsuni g' =
         (case map_of results ?u of None \<Rightarrow> 0 | Some g0 \<Rightarrow> g_total_matsuni g0)
         + row_matsuni activity" by auto
    have old: "(case map_of results ?u of None \<Rightarrow> 0 | Some g0 \<Rightarrow> g_total_matsuni g0) =
        sum_list (map row_matsuni (filter (\<lambda>a. row_username a = ?u) (filter ?mem activities)))"
    proof (cases "map_of results ?u")
      case None
      then have "?u \<notin> set (map fst results)" by (simp add: map_of_eq_None_iff)
      then have "?u \<notin> set (map row_username (filter ?mem activities))"
        unfolding set_keys .
      then have "filter (\<lambda>a. row_username a = ?u) (filter ?mem activities) = []"
        by (rule filter_absent_key)
      with None show ?thesis by simp
    next
      case (Some g0)
      with tot [OF Some] show ?thesis by simp
    qed
    show ?thesis unfolding g' old using True m by simp
  qed
  from k' t' show ?thesis unfolding grouped_def by blast
qed

lemma group_loop_grouped:
  assumes "\<forall>a \<in> set activities. split_first (row_check_time a) \<noteq> None"
  shows "\<exists>results. group_loop members activities [] = Inr results \<and>
           grouped members activities results"
  using assms
proof (induction activities rule: rev_induct)
  case Nil
  then show ?case by (simp add: grouped_def first_seen_def)
next
  case (snoc a activities)
  from snoc obtain results where r: "group_loop members activities [] = Inr results"
      and g: "grouped members activities results" by auto
  from snoc.prems obtain d where d: "split_first (row_check_time a) = Some d" by auto
  show ?case
  proof (cases "members (row_username a) = None")
    case True
    then have "grouped members (activities @ [a]) results"
      using g by (simp add: grouped_def)
    moreover have "group_loop members (activities @ [a]) [] = Inr results"
      unfolding group_loop_append r using True
      by (simp add: group_loop_single del: group_loop.simps)
    ultimately show ?thesis by blast
  next
    case False
    then obtain mr where mr: "members (row_username a) = Some mr" by auto
    have "group_loop members (activities @ [a]) [] = Inr (group_step a d results)"
      unfolding group_loop_append r using mr d
      by (simp add: group_loop_single del: group_loop.simps)
    moreover have "grouped members (activities @ [a]) (group_step a d results)"
      by (rule grouped_step [OF g False])
    ultimately show ?thesis by blast
  qed
qed

lemma final_loop_props:
  "(\<forall>F. final_loop round2 members items acc = Inr F \<longrightarrow>
      map f_username F = map f_username acc @ map fst items \<and>
      map f_total_matsuni F = map f_total_matsuni acc @ map (\<lambda>p. g_total_matsuni (snd p)) items) \<and>
   ((\<forall>p \<in> set items. members (fst p) \<noteq> None) \<longrightarrow>
      (\<exists>F. final_loop round2 members items acc = Inr F))"
proof (induction items arbitrary: acc)
  case Nil
  then show ?case by simp
next
  case (Cons p items)
  obtain username data where p: "p = (username, data)" by (cases p)
  show ?case
  proof (cases "members username")
    case None
    then show ?thesis by (simp add: p Let_def)
  next
    case (Some member)
    let ?acc = "acc @ [\<lparr>f_username = username, f_days_active = card (g_days_active data),
                  f_total_matsuni = g_total_matsuni data,
                  f_avg_matsuni = round2 (if card (g_days_active data) > 0
                     then of_int (g_total_matsuni data) / of_nat (card (g_days_active data)) else 0),
                  f_join_date = m_join_date member, f_status = m_status member\<rparr>]"
    have step: "final_loop round2 members (p # items) acc = final_loop round2 members items ?acc"
      using Some by (simp add: p Let_def)
    from Cons.IH [of ?acc] show ?thesis
      unfolding step using Some by (simp add: p)
  qed
qed

lemma add_ranks_rank: "map f_rank (add_ranks i xs) = [i..<i + length xs]"
proof (induction xs arbitrary: i)
  case Nil
  then show ?case by simp
next
  case (Cons x xs)
  have "[i..<i + length (x # xs)] = i # [Suc i..<Suc i + length xs]"
    by (subst upt_rec) simp
  then show ?case
    by (simp add: Cons.IH final_result.defs ranked_result.defs)
qed

lemma add_ranks_username: "map f_username (add_ranks i xs) = map f_username xs"
  by (induction xs arbitrary: i) (simp_all add: final_result.defs ranked_result.defs)

lemma add_ranks_total: "map f_total_matsuni (add_ranks i xs) = map f_total_matsuni xs"
  by (induction xs arbitrary: i) (simp_all add: final_result.defs ranked_result.defs)

lemma add_ranks_length: "length (add_ranks i xs) = length xs"
  by (induction xs arbitrary: i) simp_all

text \<open>The function in two steps: the ranking, then the rewrite of the totals sheet.\<close>

lemma calculate_totals_eq:
  "calculate_totals round2 strptime db start_date end_date =
     (case compute_ranking round2 db start_date end_date of
        Inl e \<Rightarrow> (Inl e, db)
      | Inr final_results \<Rightarrow>
          (case ws_totals db of
             [] \<Rightarrow> (Inl IndexError, db)
           | header # existing \<Rightarrow>
               (totals_dict strptime start_date end_date final_results,
                db\<lparr>ws_totals := header # filter (kept_row (start_date @ ''_'' @ end_date)) existing
                       @ new_rows (start_date @ ''_'' @ end_date) final_results\<rparr>)))"
  unfolding calculate_totals_def compute_ranking_def totals_dict_def Let_def kept_row_def [abs_def]
  by (simp split: sum.split list.split option.split prod.split)

subsection \<open>Recalculating a period\<close>

lemma compute_ranking_cong:
  "ws_activity db' = ws_activity db \<Longrightarrow> ws_members db' = ws_members db \<Longrightarrow>
   compute_ranking round2 db' start_date end_date = compute_ranking round2 db start_date end_date"
  by (simp add: compute_ranking_def cong: sum.case_cong)

lemma new_rows_dropped: "filter (kept_row period_id) (new_rows period_id final_results) = []"
  by (induction final_results) (simp_all add: new_rows_def kept_row_def)

lemma calculate_totals_failed:
  "compute_ranking round2 db start_date end_date = Inl e \<Longrightarrow>
   calculate_totals round2 strptime db start_date end_date = (Inl e, db)"
  by (simp only: calculate_totals_eq sum.case)

lemma calculate_totals_no_header:
  "compute_ranking round2 db start_date end_date = Inr final_results \<Longrightarrow> ws_totals db = [] \<Longrightarrow>
   calculate_totals round2 strptime db start_date end_date = (Inl IndexError, db)"
  by (simp only: calculate_totals_eq sum.case list.case)

lemma calculate_totals_written:
  "compute_ranking round2 db start_date end_date = Inr final_results \<Longrightarrow>
   ws_totals db = header # existing \<Longrightarrow>
   calculate_totals round2 strptime db start_date end_date =
     (totals_dict strptime start_date end_date final_results,
      db\<lparr>ws_totals := header # filter (kept_row (start_date @ ''_'' @ end_date)) existing
             @ new_rows (start_date @ ''_'' @ end_date) final_results\<rparr>)"
  by (simp only: calculate_totals_eq sum.case list.case)

text \<open>
  Claim C8. Running the aggregation again on the state the first run left, with the same
  dates, returns the same outcome (the same report with the same order, totals, days
  active, averages, ranks and summary values, or the same exception) and leaves the same
  state.
\<close>

theorem calculate_totals_idempotent:
  "calculate_totals round2 strptime
     (snd (calculate_totals round2 strptime db start_date end_date)) start_date end_date =
   calculate_totals round2 strptime db start_date end_date"
proof (cases "compute_ranking round2 db start_date end_date")
  case (Inl e)
  have first: "calculate_totals round2 strptime db start_date end_date = (Inl e, db)"
    by (rule calculate_totals_failed [OF Inl])
  show ?thesis by (simp only: first snd_conv)
next
  case (Inr final_results)
  show ?thesis
  proof (cases "ws_totals db")
    case Nil
    have first: "calculate_totals round2 strptime db start_date end_date = (Inl IndexError, db)"
      by (rule calculate_totals_no_header [OF Inr Nil])
    show ?thesis by (simp only: first snd_conv)
  next
    case (Cons header existing)
    define pid where "pid = start_date @ ''_'' @ end_date"
    define rows where "rows = header # filter (kept_row pid) existing @ new_rows pid final_results"
    define db' where "db' = db\<lparr>ws_totals := rows\<rparr>"
    have first: "calculate_totals round2 strptime db start_date end_date =
        (totals_dict strptime start_date end_date final_results, db')"
      unfolding db'_def rows_def pid_def by (rule calculate_totals_written [OF Inr Cons])
    have "ws_activity db' = ws_activity db" "ws_members db' = ws_members db"
      by (simp_all add: db'_def)
    then have "compute_ranking round2 db' start_date end_date =
        compute_ranking round2 db start_date end_date"
      by (rule compute_ranking_cong)
    then have rank': "compute_ranking round2 db' start_date end_date = Inr final_results"
      by (simp only: Inr)
    have tot': "ws_totals db' = header # (filter (kept_row pid) existing @ new_rows pid final_results)"
      by (simp add: db'_def rows_def)
    have "filter (kept_row pid) (filter (kept_row pid) existing @ new_rows pid final_results) =
        filter (kept_row pid) existing"
      by (simp add: new_rows_dropped)
    then have rows': "header # filter (kept_row pid) (filter (kept_row pid) existing
          @ new_rows pid final_results) @ new_rows pid final_results = rows"
      by (simp add: rows_def)
    have same: "db'\<lparr>ws_totals := rows\<rparr> = db'" by (simp add: db'_def)
    have "calculate_totals round2 strptime db' start_date end_date =
        (totals_dict strptime start_date end_date final_results,
         db'\<lparr>ws_totals := header # filter (kept_row (start_date @ ''_'' @ end_date))
              (filter (kept_row pid) existing @ new_rows pid final_results)
             @ new_rows (start_date @ ''_'' @ end_date) final_results\<rparr>)"
      by (rule calculate_totals_written [OF rank' tot'])
    then have second: "calculate_totals round2 strptime db' start_date end_date =
        (totals_dict strptime start_date end_date final_results, db')"
      unfolding pid_def [symmetric] rows' same .
    show ?thesis unfolding first snd_conv by (rule second)
  qed
qed

text \<open>The claim on the report of \<open>period_db\<close>.\<close>

theorem calculate_totals_idempotent_witness:
  "fst (calculate_totals (\<lambda>x. x) january_days period_db ''2024-01-01'' ''2024-01-02'') =
     Inr period_report \<and>
   calculate_totals (\<lambda>x. x) january_days
     (snd (calculate_totals (\<lambda>x. x) january_days period_db ''2024-01-01'' ''2024-01-02''))
     ''2024-01-01'' ''2024-01-02'' =
   calculate_totals (\<lambda>x. x) january_days period_db ''2024-01-01'' ''2024-01-02''"
proof -
  have "fst (calculate_totals (\<lambda>x. x) january_days period_db ''2024-01-01'' ''2024-01-02'') =
      Inr period_report"
    by code_simp
  with calculate_totals_idempotent
    [of "\<lambda>x. x" january_days period_db "''2024-01-01''" "''2024-01-02''"]
  show ?thesis by blast
qed

subsection \<open>Ranks\<close>

lemma sorted_reverse_length: "length (sorted_reverse key xs) = length xs"
  by (simp add: sorted_reverse_def)

lemma is_member_dict: "(members_dict (ws_members db) u \<noteq> None) = is_member db u"
  by (simp add: members_dict_None is_member_def)

lemma period_entries_eq:
  "filter (\<lambda>a. members_dict (ws_members db) (row_username a) \<noteq> None)
     (filter (in_period start_date end_date) (ws_activity db)) =
   period_entries db start_date end_date"
  by (simp only: period_entries_def filter_filter is_member_dict)

lemma in_period_readable: "in_period s e row \<Longrightarrow> split_first (row_check_time row) \<noteq> None"
  by (auto simp: in_period_def split: option.splits)

lemma map_pair_zip: "map (\<lambda>r. (f r, g r)) xs = zip (map f xs) (map g xs)"
  by (induction xs) simp_all

text \<open>The ranks, the order and the totals of the ranking.\<close>

lemma compute_ranking_props:
  assumes "compute_ranking round2 db start_date end_date = Inr out"
  shows "map f_rank out = [1..<Suc (length out)]"
    and "sorted_wrt (\<lambda>x y. f_total_matsuni y \<le> f_total_matsuni x) out"
    and "\<forall>r \<in> set out. f_total_matsuni r = member_total db start_date end_date (f_username r)"
    and "\<forall>k. filter (\<lambda>u. member_total db start_date end_date u = k) (map f_username out) =
             filter (\<lambda>u. member_total db start_date end_date u = k)
               (encounter_order db start_date end_date)"
    and "length out = length (encounter_order db start_date end_date)"
proof -
  let ?members = "members_dict (ws_members db)"
  let ?mt = "member_total db start_date end_date"
  from assms obtain activities where
    a: "period_loop start_date end_date (ws_activity db) [] = Inr activities"
    by (cases "period_loop start_date end_date (ws_activity db) []")
       (simp_all add: compute_ranking_def)
  from assms a obtain results where
    g: "group_loop ?members activities [] = Inr results"
    by (cases "group_loop ?members activities []") (simp_all add: compute_ranking_def)
  from assms a g obtain unsorted where
    f: "final_loop round2 ?members results [] = Inr unsorted"
    by (cases "final_loop round2 ?members results []") (simp_all add: compute_ranking_def)
  from assms a g f have
    out: "out = add_ranks 1 (sorted_reverse f_total_matsuni unsorted)"
    by (simp add: compute_ranking_def)
  from a have acts: "activities = filter (in_period start_date end_date) (ws_activity db)"
    by (simp add: period_loop_eq split: if_splits)
  have "\<forall>a \<in> set activities. split_first (row_check_time a) \<noteq> None"
    unfolding acts by (auto dest: in_period_readable)
  from group_loop_grouped [OF this, of ?members] g
  have gr: "grouped ?members activities results" by auto
  have keys: "map fst results = encounter_order db start_date end_date"
    using gr unfolding grouped_def acts period_entries_eq encounter_order_def by blast
  have gtot: "g_total_matsuni gp = ?mt u" if "(u, gp) \<in> set results" for u gp
  proof -
    have "distinct (map fst results)" unfolding keys encounter_order_def
      by (rule first_seen_distinct)
    with that have "map_of results u = Some gp" by simp
    with gr show ?thesis
      unfolding grouped_def acts period_entries_eq member_total_def by blast
  qed
  from final_loop_props [of round2 ?members results "[]"] f
  have fn: "map f_username unsorted = map fst results"
    and ft: "map f_total_matsuni unsorted = map (\<lambda>p. g_total_matsuni (snd p)) results"
    by auto
  have "map (\<lambda>p. g_total_matsuni (snd p)) results = map (\<lambda>p. ?mt (fst p)) results"
    by (rule map_cong [OF refl]) (auto simp: gtot)
  also have "\<dots> = map ?mt (map fst results)" by (simp add: comp_def)
  finally have "map (\<lambda>p. g_total_matsuni (snd p)) results = map ?mt (map f_username unsorted)"
    by (simp only: fn)
  with ft have "map f_total_matsuni unsorted = map (\<lambda>r. ?mt (f_username r)) unsorted"
    by (simp add: comp_def)
  then have tot_unsorted: "\<forall>r \<in> set unsorted. f_total_matsuni r = ?mt (f_username r)"
    by (simp only: map_eq_conv)
  let ?sorted = "sorted_reverse f_total_matsuni unsorted"
  have tot_sorted: "\<forall>r \<in> set ?sorted. f_total_matsuni r = ?mt (f_username r)"
    using tot_unsorted by (simp add: sorted_reverse_set)
  have names: "map f_username out = map f_username ?sorted"
    and totals: "map f_total_matsuni out = map f_total_matsuni ?sorted"
    unfolding out by (rule add_ranks_username, rule add_ranks_total)
  have len: "length out = length unsorted"
    unfolding out by (simp add: add_ranks_length sorted_reverse_length)
  show "map f_rank out = [1..<Suc (length out)]"
    unfolding out by (simp add: add_ranks_rank add_ranks_length)
  have "sorted_wrt (\<lambda>x y. y \<le> x) (map f_total_matsuni ?sorted)"
    using sorted_reverse_descending [of f_total_matsuni unsorted]
    by (simp add: sorted_wrt_map)
  then have "sorted_wrt (\<lambda>x y. y \<le> x) (map f_total_matsuni out)"
    by (simp only: totals)
  then show "sorted_wrt (\<lambda>x y. f_total_matsuni y \<le> f_total_matsuni x) out"
    by (simp add: sorted_wrt_map)
  have pairs: "map (\<lambda>r. (f_username r, f_total_matsuni r)) out =
      map (\<lambda>r. (f_username r, f_total_matsuni r)) ?sorted"
    unfolding map_pair_zip names totals ..
  show "\<forall>r \<in> set out. f_total_matsuni r = ?mt (f_username r)"
  proof
    fix r assume "r \<in> set out"
    then have "(f_username r, f_total_matsuni r) \<in> set (map (\<lambda>r. (f_username r, f_total_matsuni r)) out)"
      by force
    then obtain r' where "r' \<in> set ?sorted" "f_username r' = f_username r"
        "f_total_matsuni r' = f_total_matsuni r"
      unfolding pairs by auto
    with tot_sorted show "f_total_matsuni r = ?mt (f_username r)" by auto
  qed
  show "\<forall>k. filter (\<lambda>u. ?mt u = k) (map f_username out) =
             filter (\<lambda>u. ?mt u = k) (encounter_order db start_date end_date)"
  proof
    fix k
    have "filter (\<lambda>u. ?mt u = k) (map f_username ?sorted) =
        map f_username (filter (\<lambda>r. ?mt (f_username r) = k) ?sorted)"
      by (simp add: filter_map comp_def)
    also have "filter (\<lambda>r. ?mt (f_username r) = k) ?sorted =
        filter (\<lambda>r. f_total_matsuni r = k) ?sorted"
      by (rule filter_cong [OF refl]) (simp add: tot_sorted)
    also have "\<dots> = filter (\<lambda>r. f_total_matsuni r = k) unsorted"
      by (rule sorted_reverse_stable)
    also have "\<dots> = filter (\<lambda>r. ?mt (f_username r) = k) unsorted"
      by (rule filter_cong [OF refl]) (simp add: tot_unsorted)
    also have "map f_username \<dots> = filter (\<lambda>u. ?mt u = k) (map f_username unsorted)"
      by (simp add: filter_map comp_def)
    finally show "filter (\<lambda>u. ?mt u = k) (map f_username out) =
        filter (\<lambda>u. ?mt u = k) (encounter_order db start_date end_date)"
      unfolding names fn keys .
  qed
  show "length out = length (encounter_order db start_date end_date)"
  proof -
    have "length unsorted = length (map f_username unsorted)" by simp
    also have "\<dots> = length (encounter_order db start_date end_date)"
      unfolding fn keys ..
    finally show ?thesis using len by simp
  qed
qed

lemma encounter_order_members:
  "u \<in> set (encounter_order db start_date end_date) \<Longrightarrow> is_member db u"
  by (auto simp: encounter_order_def first_seen_set period_entries_def)

lemma compute_ranking_returns:
  assumes "ledger_readable db"
  shows "\<exists>out. compute_ranking round2 db start_date end_date = Inr out"
proof -
  let ?members = "members_dict (ws_members db)"
  let ?acts = "filter (in_period start_date end_date) (ws_activity db)"
  have a: "period_loop start_date end_date (ws_activity db) [] = Inr ?acts"
    using assms by (simp add: period_loop_eq ledger_readable_def)
  have "\<forall>a \<in> set ?acts. split_first (row_check_time a) \<noteq> None"
    by (auto dest: in_period_readable)
  from group_loop_grouped [OF this, of ?members]
  obtain results where g: "group_loop ?members ?acts [] = Inr results"
    and gr: "grouped ?members ?acts results" by blast
  have keys: "map fst results = encounter_order db start_date end_date"
    using gr unfolding grouped_def period_entries_eq encounter_order_def by blast
  have "\<forall>p \<in> set results. ?members (fst p) \<noteq> None"
  proof
    fix p assume "p \<in> set results"
    then have "fst p \<in> set (map fst results)" by simp
    then have "is_member db (fst p)" unfolding keys by (rule encounter_order_members)
    then show "?members (fst p) \<noteq> None" by (simp only: is_member_dict)
  qed
  with final_loop_props [of round2 ?members results "[]"]
  obtain unsorted where "final_loop round2 ?members results [] = Inr unsorted" by blast
  with a g show ?thesis by (simp add: compute_ranking_def)
qed

lemma calculate_totals_results:
  assumes "fst (calculate_totals round2 strptime db start_date end_date) = Inr res"
  shows "compute_ranking round2 db start_date end_date = Inr (t_results res)"
proof (cases "compute_ranking round2 db start_date end_date")
  case (Inl e)
  with assms show ?thesis by (simp add: calculate_totals_failed)
next
  case (Inr final_results)
  show ?thesis
  proof (cases "ws_totals db")
    case Nil
    with Inr assms show ?thesis by (simp add: calculate_totals_no_header)
  next
    case (Cons header existing)
    from assms have "totals_dict strptime start_date end_date final_results = Inr res"
      by (simp add: calculate_totals_written [OF Inr Cons])
    then have "t_results res = final_results"
      by (auto simp: totals_dict_def split: option.splits)
    with Inr show ?thesis by simp
  qed
qed

lemma calculate_totals_returns:
  assumes "ledger_readable db" "ws_totals db \<noteq> []"
    "strptime start_date \<noteq> None" "strptime end_date \<noteq> None"
  shows "\<exists>res. fst (calculate_totals round2 strptime db start_date end_date) = Inr res"
proof -
  from compute_ranking_returns [OF assms(1)]
  obtain out where out: "compute_ranking round2 db start_date end_date = Inr out" by blast
  from assms(2) obtain header existing where t: "ws_totals db = header # existing"
    by (cases "ws_totals db") auto
  from assms(3,4) obtain s e where "strptime start_date = Some s" "strptime end_date = Some e"
    by auto
  then have "\<exists>res. totals_dict strptime start_date end_date out = Inr res"
    by (simp add: totals_dict_def)
  then show ?thesis by (simp add: calculate_totals_written [OF out t])
qed

text \<open>
  Claim C6. In a report of \<open>calculate_totals\<close> the ranks are 1, 2, ..., N in this
  order, N being the number of members with an entry in the period; the totals descend;
  every total is the sum of the matsuni of the member over the period; and members with
  equal totals stand in the order in which the grouping loop met them. The function
  returns a report when no check time of the ledger is blank, the totals sheet has its
  header and both dates parse.
\<close>

theorem ranking_dense_descending_stable:
  "(\<forall>res. fst (calculate_totals round2 strptime db start_date end_date) = Inr res \<longrightarrow>
      map f_rank (t_results res) = [1..<Suc (length (t_results res))] \<and>
      length (t_results res) =
        card (set (map row_username (period_entries db start_date end_date))) \<and>
      sorted_wrt (\<lambda>x y. f_total_matsuni y \<le> f_total_matsuni x) (t_results res) \<and>
      (\<forall>r \<in> set (t_results res).
         f_total_matsuni r = member_total db start_date end_date (f_username r)) \<and>
      (\<forall>k. filter (\<lambda>u. member_total db start_date end_date u = k)
             (map f_username (t_results res)) =
           filter (\<lambda>u. member_total db start_date end_date u = k)
             (encounter_order db start_date end_date))) \<and>
   (ledger_readable db \<and> ws_totals db \<noteq> [] \<and>
    strptime start_date \<noteq> None \<and> strptime end_date \<noteq> None \<longrightarrow>
      (\<exists>res. fst (calculate_totals round2 strptime db start_date end_date) = Inr res))"
proof (intro conjI allI impI)
  fix res
  assume "fst (calculate_totals round2 strptime db start_date end_date) = Inr res"
  then have cr: "compute_ranking round2 db start_date end_date = Inr (t_results res)"
    by (rule calculate_totals_results)
  show "map f_rank (t_results res) = [1..<Suc (length (t_results res))]"
    by (rule compute_ranking_props(1) [OF cr])
  show "sorted_wrt (\<lambda>x y. f_total_matsuni y \<le> f_total_matsuni x) (t_results res)"
    by (rule compute_ranking_props(2) [OF cr])
  show "\<forall>r \<in> set (t_results res).
      f_total_matsuni r = member_total db start_date end_date (f_username r)"
    by (rule compute_ranking_props(3) [OF cr])
  show "filter (\<lambda>u. member_total db start_date end_date u = k) (map f_username (t_results res)) =
        filter (\<lambda>u. member_total db start_date end_date u = k)
          (encounter_order db start_date end_date)" for k
    using compute_ranking_props(4) [OF cr] by blast
  have "card (set (map row_username (period_entries db start_date end_date))) =
      card (set (encounter_order db start_date end_date))"
    by (simp only: encounter_order_def first_seen_set)
  also have "\<dots> = length (encounter_order db start_date end_date)"
    unfolding encounter_order_def by (rule distinct_card [OF first_seen_distinct])
  finally show "length (t_results res) =
      card (set (map row_username (period_entries db start_date end_date)))"
    using compute_ranking_props(5) [OF cr] by simp
next
  assume "ledger_readable db \<and> ws_totals db \<noteq> [] \<and>
    strptime start_date \<noteq> None \<and> strptime end_date \<noteq> None"
  then show "\<exists>res. fst (calculate_totals round2 strptime db start_date end_date) = Inr res"
    by (intro calculate_totals_returns) simp_all
qed

text \<open>
  The claim on \<open>period_db\<close>: u1 and u3 tie and keep their order of encounter.
\<close>

theorem ranking_dense_descending_stable_witness:
  "fst (calculate_totals (\<lambda>x. x) january_days period_db ''2024-01-01'' ''2024-01-02'') =
     Inr period_report \<and>
   map f_username (t_results period_report) = [''u1'', ''u3'', ''u2''] \<and>
   map f_total_matsuni (t_results period_report) = [5, 5, 1] \<and>
   map f_rank (t_results period_report) = [1..<Suc (length (t_results period_report))] \<and>
   encounter_order period_db ''2024-01-01'' ''2024-01-02'' = [''u2'', ''u1'', ''u3''] \<and>
   length (t_results period_report) =
     card (set (map row_username (period_entries period_db ''2024-01-01'' ''2024-01-02'')))"
proof -
  have ev: "fst (calculate_totals (\<lambda>x. x) january_days period_db ''2024-01-01'' ''2024-01-02'') =
      Inr period_report"
    by code_simp
  have names: "map f_username (t_results period_report) = [''u1'', ''u3'', ''u2'']"
    by (simp add: period_report_def)
  have totals: "map f_total_matsuni (t_results period_report) = [5, 5, 1]"
    by (simp add: period_report_def)
  have order: "encounter_order period_db ''2024-01-01'' ''2024-01-02'' = [''u2'', ''u1'', ''u3'']"
    by code_simp
  from ranking_dense_descending_stable
    [of "\<lambda>x. x" january_days period_db "''2024-01-01''" "''2024-01-02''"] ev
  have "map f_rank (t_results period_report) = [1..<Suc (length (t_results period_report))]"
    and "length (t_results period_report) =
      card (set (map row_username (period_entries period_db ''2024-01-01'' ''2024-01-02'')))"
    by blast+
  with ev names totals order show ?thesis by blast
qed

end
